theory Spec2Isabelle
  imports Complex_Main "HOL-Library.AList" "HOL-Library.Sublist"
begin

section \<open>Account storage: data model\<close>

text \<open>
  The account storage module declares two schemas. A version-1 record carries one
  rate-limit flag and one reset time; a version-2 record carries one optional reset time
  per model family. Optional fields (\<^verbatim>\<open>email?: string\<close>) are options, time stamps
  (\<^verbatim>\<open>addedAt: number\<close>, milliseconds since the epoch) are integers.
\<close>

datatype SwitchReason = RateLimit | Initial | Rotation

record RateLimitState =
  claude :: "int option"
  gemini :: "int option"

record AccountMetadataV1 =
  emailV1 :: "string option"
  refreshTokenV1 :: string
  projectIdV1 :: "string option"
  managedProjectIdV1 :: "string option"
  addedAtV1 :: int
  lastUsedV1 :: int
  isRateLimited :: "bool option"
  rateLimitResetTime :: "int option"
  lastSwitchReasonV1 :: "SwitchReason option"

record AccountMetadata =
  email :: "string option"
  refreshToken :: string
  projectId :: "string option"
  managedProjectId :: "string option"
  addedAt :: int
  lastUsed :: int
  lastSwitchReason :: "SwitchReason option"
  rateLimitResetTimes :: "RateLimitState option"

text \<open>
  The storage object that \<^verbatim>\<open>loadAccounts\<close> returns. Its active index is a JavaScript
  number that went through \<^verbatim>\<open>Math.min\<close> and \<^verbatim>\<open>Math.max\<close>, hence a rational.
\<close>

record AccountStorage =
  version :: nat
  accounts :: "AccountMetadata list"
  activeIndex :: rat

text \<open>
  What \<^verbatim>\<open>JSON.parse\<close> hands to \<^verbatim>\<open>loadAccounts\<close> is not validated. An element of
  the \<^verbatim>\<open>accounts\<close> array is \<^verbatim>\<open>null\<close>, or an object with a string
  \<^verbatim>\<open>refreshToken\<close> (read at its declared type), or anything else (a scalar, an array,
  an object without a string \<^verbatim>\<open>refreshToken\<close>).
\<close>

datatype 'acc stored_entry = JsonNull | NotAnAccount | Account 'acc

text \<open>
  The stored \<^verbatim>\<open>activeIndex\<close>: not of type number (or absent), a number that is not
  finite, or a finite number.
\<close>

datatype stored_number = NotNumber | NonFinite | Num rat

text \<open>
  The parsed content, by the tests \<^verbatim>\<open>loadAccounts\<close> makes on it, in their order:
  \<^verbatim>\<open>null\<close> (reading a property of it throws), a value whose \<^verbatim>\<open>accounts\<close> is not an
  array, and a value with an array of accounts whose \<^verbatim>\<open>version\<close> is 1, is 2, or is
  anything else.
\<close>

datatype file_data =
    DataNull
  | DataNoAccounts
  | DataV1 "AccountMetadataV1 stored_entry list" stored_number
  | DataV2 "AccountMetadata stored_entry list" stored_number
  | DataOtherVersion

text \<open>
  The state of the storage file: \<^verbatim>\<open>fs.readFile\<close> fails with an errno code
  (\<^verbatim>\<open>ENOENT\<close> for a missing file), or the content does not parse, or it parses.
\<close>

datatype file_state = ReadFails string | Unparseable | Parsed file_data

datatype exn = ErrnoException string | SyntaxError | TypeError

text \<open>
  What the function writes: console messages, and the migrated storage that
  \<^verbatim>\<open>saveAccounts\<close> persists (the entries as migrated, before validation).
\<close>

datatype log_event =
    Info string
  | Warn string
  | Error string
  | Saved "AccountMetadata stored_entry list" stored_number

section \<open>Account storage: operations\<close>

text \<open>\<^verbatim>\<open>x || 0\<close> on a number: zero is the only falsy integer.\<close>

definition or_zero :: "int \<Rightarrow> int" where
  "or_zero x = (if x = 0 then 0 else x)"

text \<open>\<^verbatim>\<open>!acc.email\<close>: an absent email and the empty string are both falsy.\<close>

definition no_email :: "AccountMetadata \<Rightarrow> bool" where
  "no_email acc = (case email acc of None \<Rightarrow> True | Some e \<Rightarrow> e = [])"

definition isNewer :: "AccountMetadata \<Rightarrow> AccountMetadata \<Rightarrow> bool" where
  "isNewer acc existing =
     (let currLastUsed = or_zero (lastUsed acc);
          existLastUsed = or_zero (lastUsed existing);
          currAddedAt = or_zero (addedAt acc);
          existAddedAt = or_zero (addedAt existing)
      in currLastUsed > existLastUsed \<or>
         (currLastUsed = existLastUsed \<and> currAddedAt > existAddedAt))"

text \<open>
  The state of the first pass of \<^verbatim>\<open>deduplicateAccountsByEmail\<close>: the
  \<^verbatim>\<open>Map<string, number>\<close> as an association list in insertion order, and the
  \<^verbatim>\<open>Set<number>\<close> of indices to keep.
\<close>

record dedup_state =
  emailToNewestIndex :: "(string \<times> nat) list"
  indicesToKeep :: "nat set"

text \<open>
  One iteration of the first loop, at index \<open>i\<close>. The elements of a typed
  \<^verbatim>\<open>AccountMetadata[]\<close> are objects, so \<^verbatim>\<open>if (!acc) continue\<close> never fires. The
  test \<^verbatim>\<open>!acc.email\<close> holds for an absent email and for the empty string. The test
  \<^verbatim>\<open>!existing\<close> holds when the index read from the map is outside the array.
\<close>

definition first_pass_step :: "AccountMetadata list \<Rightarrow> nat \<Rightarrow> dedup_state \<Rightarrow> dedup_state" where
  "first_pass_step accs i st =
     (let acc = accs ! i in
      case email acc of
        None \<Rightarrow> st\<lparr>indicesToKeep := insert i (indicesToKeep st)\<rparr>
      | Some e \<Rightarrow>
          if e = [] then st\<lparr>indicesToKeep := insert i (indicesToKeep st)\<rparr>
          else
            (case map_of (emailToNewestIndex st) e of
               None \<Rightarrow> st\<lparr>emailToNewestIndex := AList.update e i (emailToNewestIndex st)\<rparr>
             | Some existingIndex \<Rightarrow>
                 if existingIndex < length accs
                 then (if isNewer acc (accs ! existingIndex)
                       then st\<lparr>emailToNewestIndex := AList.update e i (emailToNewestIndex st)\<rparr>
                       else st)
                 else st\<lparr>emailToNewestIndex := AList.update e i (emailToNewestIndex st)\<rparr>))"

definition first_pass :: "AccountMetadata list \<Rightarrow> dedup_state" where
  "first_pass accs =
     fold (first_pass_step accs) [0..<length accs]
       \<lparr>emailToNewestIndex = [], indicesToKeep = {}\<rparr>"

text \<open>The second loop adds every value of the map to the set of indices to keep.\<close>

definition second_pass :: "dedup_state \<Rightarrow> nat set" where
  "second_pass st = fold (\<lambda>idx keep. insert idx keep) (map snd (emailToNewestIndex st)) (indicesToKeep st)"

definition kept_indices :: "AccountMetadata list \<Rightarrow> nat set" where
  "kept_indices accs = second_pass (first_pass accs)"

text \<open>The third loop pushes the kept accounts in the order of the input.\<close>

definition deduplicateAccountsByEmail :: "AccountMetadata list \<Rightarrow> AccountMetadata list" where
  "deduplicateAccountsByEmail accs =
     map (\<lambda>i. accs ! i) (filter (\<lambda>i. i \<in> kept_indices accs) [0..<length accs])"

text \<open>
  The callback of \<^verbatim>\<open>v1.accounts.map\<close> in \<^verbatim>\<open>migrateV1ToV2\<close>, at a version-1
  record; \<open>now\<close> is \<^verbatim>\<open>Date.now()\<close>. The guard is a chain of truthiness tests: the
  flag is set, the reset time is present and not zero, and it lies after \<open>now\<close>.
\<close>

definition migrateAccount :: "int \<Rightarrow> AccountMetadataV1 \<Rightarrow> AccountMetadata" where
  "migrateAccount now acc =
     (let limited =
            (isRateLimited acc = Some True \<and>
             (case rateLimitResetTime acc of
                None \<Rightarrow> False
              | Some t \<Rightarrow> t \<noteq> 0 \<and> t > now));
          times = (if limited
                   then \<lparr>claude = rateLimitResetTime acc, gemini = rateLimitResetTime acc\<rparr>
                   else \<lparr>claude = None, gemini = None\<rparr>)
      in \<lparr>email = emailV1 acc,
          refreshToken = refreshTokenV1 acc,
          projectId = projectIdV1 acc,
          managedProjectId = managedProjectIdV1 acc,
          addedAt = addedAtV1 acc,
          lastUsed = lastUsedV1 acc,
          lastSwitchReason = lastSwitchReasonV1 acc,
          rateLimitResetTimes =
            (if claude times \<noteq> None \<or> gemini times \<noteq> None then Some times else None)\<rparr>)"

text \<open>
  The callback at an element of the stored array. Reading a property of \<^verbatim>\<open>null\<close>
  throws a \<^verbatim>\<open>TypeError\<close>. Any other value that is no account yields an object whose
  \<^verbatim>\<open>refreshToken\<close> is the (non-string) one it read, so it stays no account.
\<close>

fun migrateEntry :: "int \<Rightarrow> AccountMetadataV1 stored_entry \<Rightarrow> exn + AccountMetadata stored_entry" where
  "migrateEntry now JsonNull = Inl TypeError"
| "migrateEntry now NotAnAccount = Inr NotAnAccount"
| "migrateEntry now (Account acc) = Inr (Account (migrateAccount now acc))"

fun migrateEntries :: "int \<Rightarrow> AccountMetadataV1 stored_entry list \<Rightarrow> exn + AccountMetadata stored_entry list" where
  "migrateEntries now [] = Inr []"
| "migrateEntries now (e # es) =
     (case migrateEntry now e of
        Inl x \<Rightarrow> Inl x
      | Inr e' \<Rightarrow> (case migrateEntries now es of Inl x \<Rightarrow> Inl x | Inr es' \<Rightarrow> Inr (e' # es')))"

text \<open>
  \<^verbatim>\<open>migrateV1ToV2\<close>: the migrated entries and the active index as stored (the version
  of the result is the constant 2).
\<close>

definition migrateV1ToV2 ::
  "int \<Rightarrow> AccountMetadataV1 stored_entry list \<times> stored_number \<Rightarrow>
   exn + (AccountMetadata stored_entry list \<times> stored_number)" where
  "migrateV1ToV2 now v1 =
     (case migrateEntries now (fst v1) of
        Inl x \<Rightarrow> Inl x
      | Inr es \<Rightarrow> Inr (es, snd v1))"

text \<open>
  The validation filter of \<^verbatim>\<open>loadAccounts\<close>: an element stays when it is truthy, an
  object, and has a string \<^verbatim>\<open>refreshToken\<close>.
\<close>

fun validAccounts :: "'acc stored_entry list \<Rightarrow> 'acc list" where
  "validAccounts [] = []"
| "validAccounts (Account a # es) = a # validAccounts es"
| "validAccounts (_ # es) = validAccounts es"

text \<open>
  The clamp of the active index: the stored value when it is a finite number and 0
  otherwise, then \<^verbatim>\<open>Math.min\<close> with the last index and \<^verbatim>\<open>Math.max\<close> with 0 when
  the list is not empty, and 0 when it is empty.
\<close>

definition clampActiveIndex :: "stored_number \<Rightarrow> nat \<Rightarrow> rat" where
  "clampActiveIndex stored len =
     (let activeIndex = (case stored of Num r \<Rightarrow> r | _ \<Rightarrow> 0) in
      if len > 0 then max (min activeIndex (of_nat len - 1)) 0 else 0)"

text \<open>
  The part of \<^verbatim>\<open>loadAccounts\<close> after the schema has been settled: validation,
  de-duplication, clamp.
\<close>

definition finishLoad :: "AccountMetadata stored_entry list \<Rightarrow> stored_number \<Rightarrow> AccountStorage" where
  "finishLoad entries stored =
     (let deduplicatedAccounts = deduplicateAccountsByEmail (validAccounts entries)
      in \<lparr>version = 2,
          accounts = deduplicatedAccounts,
          activeIndex = clampActiveIndex stored (length deduplicatedAccounts)\<rparr>)"

text \<open>
  The body of the \<^verbatim>\<open>try\<close> block of \<^verbatim>\<open>loadAccounts\<close>: the log it writes and either
  the exception it throws or the value it returns. \<open>save_ok\<close> tells whether
  \<^verbatim>\<open>saveAccounts\<close> succeeds during a migration; its failure is caught on the spot.
\<close>

definition loadAccounts_try ::
  "int \<Rightarrow> bool \<Rightarrow> file_state \<Rightarrow> log_event list \<times> (exn + AccountStorage option)" where
  "loadAccounts_try now save_ok fstate =
     (case fstate of
        ReadFails code \<Rightarrow> ([], Inl (ErrnoException code))
      | Unparseable \<Rightarrow> ([], Inl SyntaxError)
      | Parsed DataNull \<Rightarrow> ([], Inl TypeError)
      | Parsed DataNoAccounts \<Rightarrow> ([Warn ''[opencode-antigravity-auth] Invalid storage format, ignoring''], Inr None)
      | Parsed (DataV1 entries stored) \<Rightarrow>
          (case migrateV1ToV2 now (entries, stored) of
             Inl x \<Rightarrow> ([Info ''[opencode-antigravity-auth] Migrating account storage from v1 to v2''], Inl x)
           | Inr storage \<Rightarrow>
               ([Info ''[opencode-antigravity-auth] Migrating account storage from v1 to v2''] @
                (if save_ok
                 then [Saved (fst storage) (snd storage), Info ''[opencode-antigravity-auth] Migration to v2 complete'']
                 else [Warn ''[opencode-antigravity-auth] Failed to persist migrated storage:'']),
                Inr (Some (finishLoad (fst storage) (snd storage)))))
      | Parsed (DataV2 entries stored) \<Rightarrow> ([], Inr (Some (finishLoad entries stored)))
      | Parsed DataOtherVersion \<Rightarrow> ([Warn ''[opencode-antigravity-auth] Unknown storage version, ignoring''], Inr None))"

text \<open>
  \<^verbatim>\<open>loadAccounts\<close>: the \<^verbatim>\<open>catch\<close> clause turns every exception into
  \<^verbatim>\<open>null\<close>, and logs an error unless the code of the exception is \<^verbatim>\<open>ENOENT\<close>.
\<close>

definition loadAccounts :: "int \<Rightarrow> bool \<Rightarrow> file_state \<Rightarrow> log_event list \<times> AccountStorage option" where
  "loadAccounts now save_ok fstate =
     (case loadAccounts_try now save_ok fstate of
        (logs, Inr result) \<Rightarrow> (logs, result)
      | (logs, Inl (ErrnoException code)) \<Rightarrow>
          if code = ''ENOENT'' then (logs, None)
          else (logs @ [Error ''[opencode-antigravity-auth] Failed to load account storage:''], None)
      | (logs, Inl _) \<Rightarrow> (logs @ [Error ''[opencode-antigravity-auth] Failed to load account storage:''], None))"


definition fractional :: "stored_number \<Rightarrow> bool" where
  "fractional stored = (case stored of Num r \<Rightarrow> of_int \<lfloor>r\<rfloor> \<noteq> r | _ \<Rightarrow> False)"

section \<open>Account storage: predicates of the proofs\<close>

text \<open>
  Among the first \<open>k\<close> accounts, index \<open>j\<close> is the first of the newest ones with
  email \<open>e\<close>: it is newer than every earlier one with that email, and no later one is
  newer than it.
\<close>

definition first_best :: "AccountMetadata list \<Rightarrow> nat \<Rightarrow> string \<Rightarrow> nat \<Rightarrow> bool" where
  "first_best accs k e j =
     (j < k \<and> email (accs ! j) = Some e \<and>
      (\<forall>i<k. email (accs ! i) = Some e \<longrightarrow>
         (if i < j then isNewer (accs ! j) (accs ! i) else \<not> isNewer (accs ! i) (accs ! j))))"

text \<open>The invariant of the map of the first loop, before iteration \<open>k\<close>.\<close>

definition map_inv :: "AccountMetadata list \<Rightarrow> nat \<Rightarrow> (string \<rightharpoonup> nat) \<Rightarrow> bool" where
  "map_inv accs k m =
     (\<forall>e. case m e of
              None \<Rightarrow> e \<noteq> [] \<longrightarrow> (\<forall>i<k. email (accs ! i) \<noteq> Some e)
            | Some j \<Rightarrow> e \<noteq> [] \<and> first_best accs k e j)"

text \<open>The invariant of the whole state of the first loop, before iteration \<open>k\<close>.\<close>

definition pass_inv :: "AccountMetadata list \<Rightarrow> nat \<Rightarrow> dedup_state \<Rightarrow> bool" where
  "pass_inv accs k st =
     (indicesToKeep st = {i. i < k \<and> no_email (accs ! i)} \<and>
      distinct (map fst (emailToNewestIndex st)) \<and>
      map_inv accs k (map_of (emailToNewestIndex st)))"

section \<open>Account storage: account records of the file, and example records\<close>

text \<open>
  The account records a parsed file holds, as \<^verbatim>\<open>loadAccounts\<close> reads them: the valid
  entries of a version-2 file, the migrated valid entries of a version-1 file.
\<close>

definition stored_accounts :: "int \<Rightarrow> file_data \<Rightarrow> AccountMetadata list" where
  "stored_accounts now d =
     (case d of
        DataV1 entries _ \<Rightarrow> map (migrateAccount now) (validAccounts entries)
      | DataV2 entries _ \<Rightarrow> validAccounts entries
      | _ \<Rightarrow> [])"

text \<open>
  An account with the given email, refresh token, \<^verbatim>\<open>addedAt\<close> and \<^verbatim>\<open>lastUsed\<close>, and
  no optional field besides; the records of the examples.
\<close>

definition account_of :: "string option \<Rightarrow> string \<Rightarrow> int \<Rightarrow> int \<Rightarrow> AccountMetadata" where
  "account_of e r a l =
     \<lparr>email = e, refreshToken = r, projectId = None, managedProjectId = None,
      addedAt = a, lastUsed = l, lastSwitchReason = None, rateLimitResetTimes = None\<rparr>"

definition account_v1_of :: "string \<Rightarrow> bool option \<Rightarrow> int option \<Rightarrow> AccountMetadataV1" where
  "account_v1_of r limited reset =
     \<lparr>emailV1 = None, refreshTokenV1 = r, projectIdV1 = None, managedProjectIdV1 = None,
      addedAtV1 = 10, lastUsedV1 = 20, isRateLimited = limited, rateLimitResetTime = reset,
      lastSwitchReasonV1 = Some Rotation\<rparr>"

section \<open>Schema sanitizer: the model\<close>

text \<open>
  The module that sanitizes tool schemas is not among the source files; the repository
  holds its documentation only. The definitions of this section follow the specification
  of the sanitizer, rule by rule.
\<close>

text \<open>
  Modelled from the spec: the values a tool parameter schema is made of (the source type
  is missing). A schema is arbitrary JSON; an object is the list of its members, read by
  \<open>map_of\<close>.
\<close>

datatype json =
    JNull
  | JBool bool
  | JNum rat
  | JStr string
  | JArr "json list"
  | JObj "(string \<times> json) list"

text \<open>Modelled from the spec: the allowlist of rule 1.\<close>

definition allowlist :: "string list" where
  "allowlist = [''type'', ''properties'', ''required'', ''description'', ''enum'', ''items'',
                ''additionalProperties'']"

text \<open>
  Modelled from the spec: the object a sanitized schema is, built from the seven fields of
  the allowlist, each present or absent. No other key can occur in it.
\<close>

definition present :: "(string \<times> json option) list \<Rightarrow> (string \<times> json) list" where
  "present fs = concat (map (\<lambda>f. case snd f of None \<Rightarrow> [] | Some v \<Rightarrow> [(fst f, v)]) fs)"

definition schemaObject ::
  "json option \<Rightarrow> json option \<Rightarrow> json option \<Rightarrow> json option \<Rightarrow> json option \<Rightarrow> json option \<Rightarrow>
   json option \<Rightarrow> json" where
  "schemaObject ty props req desc enum items addl =
     JObj (present [(''type'', ty), (''properties'', props), (''required'', req),
                    (''description'', desc), (''enum'', enum), (''items'', items),
                    (''additionalProperties'', addl)])"

text \<open>
  Modelled from the spec: the placeholder of rule 3, the property
  \<^verbatim>\<open>reason: {type: "string", description: ...}\<close>, and the placeholder form an
  unrecognized shape degrades to: an object schema with that one required property.
\<close>

definition placeholderProperty :: json where
  "placeholderProperty =
     schemaObject (Some (JStr ''string'')) None None
       (Some (JStr ''Brief explanation of why you are calling this tool'')) None None None"

definition placeholderSchema :: json where
  "placeholderSchema =
     schemaObject (Some (JStr ''object'')) (Some (JObj [(''reason'', placeholderProperty)]))
       (Some (JArr [JStr ''reason''])) None None None None"

text \<open>
  Modelled from the spec: rule 3 adds the placeholder to \<^verbatim>\<open>required\<close>: to the names
  the list holds, or to the empty list when \<^verbatim>\<open>required\<close> is absent or no list.
\<close>

definition addRequired :: "json option \<Rightarrow> json" where
  "addRequired req =
     (case req of
        Some (JArr names) \<Rightarrow>
          JArr (if JStr ''reason'' \<in> set names then names else names @ [JStr ''reason''])
      | _ \<Rightarrow> JArr [JStr ''reason''])"

text \<open>
  Modelled from the spec: rule 4, an \<^verbatim>\<open>items\<close> value that sanitizes to the empty
  object becomes \<^verbatim>\<open>{type: "string"}\<close>.
\<close>

definition stringSchema :: json where
  "stringSchema = schemaObject (Some (JStr ''string'')) None None None None None None"

definition nonEmptyItems :: "json \<Rightarrow> json" where
  "nonEmptyItems v = (if v = JObj [] then stringSchema else v)"

text \<open>
  Modelled from the spec: rule 3 at one object, given its seven fields already sanitized.
  The placeholder is injected when the type is \<^verbatim>\<open>"object"\<close> and the properties are
  absent or empty.
\<close>

definition finishSchema ::
  "json option \<Rightarrow> json option \<Rightarrow> json option \<Rightarrow> json option \<Rightarrow> json option \<Rightarrow> json option \<Rightarrow>
   json option \<Rightarrow> json" where
  "finishSchema ty props req desc enum items addl =
     (let placeholder = (ty = Some (JStr ''object'') \<and> (props = None \<or> props = Some (JObj [])))
      in schemaObject ty
           (if placeholder then Some (JObj [(''reason'', placeholderProperty)]) else props)
           (if placeholder then Some (addRequired req) else req)
           desc enum items addl)"

text \<open>
  Modelled from the spec: \<^verbatim>\<open>sanitizeSchema\<close>, a walk over the whole tree. An object
  is rebuilt from the keys of the allowlist; rule 2 rewrites \<^verbatim>\<open>const: V\<close> to
  \<^verbatim>\<open>enum: [V]\<close> before the allowlist is applied, so that the enum stands for the
  constant. A schema is expected at the root, under each name of \<^verbatim>\<open>properties\<close> and
  under \<^verbatim>\<open>items\<close>: a value there that is no object degrades to the placeholder form.
  Rule 1 drops foreign keys at every nesting level, and the sanitized output has no other
  key at any nesting depth, so the walk goes on into every value that is kept
  (\<^verbatim>\<open>sanitizeValue\<close>): an object found there is sanitized like a schema, an array
  member by member, and a scalar is kept as it is. This is the conversion the documentation
  of the repository shows, \<^verbatim>\<open>{"type": {"const": "email"}}\<close> to
  \<^verbatim>\<open>{"type": {"enum": ["email"]}}\<close>. The function never fails.
\<close>

function sanitizeSchema :: "json \<Rightarrow> json" and sanitizeValue :: "json \<Rightarrow> json" where
  "sanitizeSchema (JObj kvs) =
     finishSchema
       (map_option sanitizeValue (map_of kvs ''type''))
       (map_option
          (\<lambda>v. case v of
                 JObj ps \<Rightarrow> JObj (map (\<lambda>p. (fst p, sanitizeSchema (snd p))) ps)
               | other \<Rightarrow> sanitizeValue other)
          (map_of kvs ''properties''))
       (map_option sanitizeValue (map_of kvs ''required''))
       (map_option sanitizeValue (map_of kvs ''description''))
       (case map_of kvs ''const'' of
          Some v \<Rightarrow> Some (JArr [sanitizeValue v])
        | None \<Rightarrow> map_option sanitizeValue (map_of kvs ''enum''))
       (map_option (\<lambda>v. nonEmptyItems (sanitizeSchema v)) (map_of kvs ''items''))
       (map_option sanitizeValue (map_of kvs ''additionalProperties''))"
| "sanitizeSchema JNull = placeholderSchema"
| "sanitizeSchema (JBool b) = placeholderSchema"
| "sanitizeSchema (JNum n) = placeholderSchema"
| "sanitizeSchema (JStr s) = placeholderSchema"
| "sanitizeSchema (JArr xs) = placeholderSchema"
| "sanitizeValue (JObj kvs) = sanitizeSchema (JObj kvs)"
| "sanitizeValue (JArr xs) = JArr (map sanitizeValue xs)"
| "sanitizeValue JNull = JNull"
| "sanitizeValue (JBool b) = JBool b"
| "sanitizeValue (JNum n) = JNum n"
| "sanitizeValue (JStr s) = JStr s"
  by pat_completeness auto
termination
proof -
  have member: "map_of kvs k = Some w \<Longrightarrow> size w < size_list (size_prod (\<lambda>_. 0) size) kvs"
    for kvs :: "(string \<times> json) list" and k w
    by (induction kvs) (auto split: if_splits)
  have element: "x \<in> set xs \<Longrightarrow> size x < size_list size xs" for x :: json and xs
    by (induction xs) auto
  have property: "p \<in> set ps \<Longrightarrow> size (snd p) < size (JObj ps)"
    for p :: "string \<times> json" and ps
    by (induction ps) (auto simp: size_prod_simp)
  show ?thesis
    apply (relation "measure (\<lambda>x. case x of Inl j \<Rightarrow> 2 * size j | Inr j \<Rightarrow> 2 * size j + 1)")
                 apply simp_all
    subgoal for kvs a using member[of kvs "''type''" a] by simp
    subgoal for kvs a xs using member[of kvs "''properties''" a] by simp
    subgoal for kvs a ps p using member[of kvs "''properties''" "JObj ps"] property[of p ps] by simp
    subgoal for kvs a using member[of kvs "''required''" a] by simp
    subgoal for kvs a using member[of kvs "''description''" a] by simp
    subgoal for kvs a using member[of kvs "''enum''" a] by simp
    subgoal for kvs a using member[of kvs "''const''" a] by simp
    subgoal for kvs a using member[of kvs "''items''" a] by simp
    subgoal for kvs a using member[of kvs "''additionalProperties''" a] by simp
    subgoal for xs x using element[of x xs] by simp
    done
qed

text \<open>
  The sanitizer at the value of \<^verbatim>\<open>properties\<close>: the schema of every property is
  sanitized; a value that is no object is walked like any other value.
\<close>

definition sanitizeProperties :: "json \<Rightarrow> json" where
  "sanitizeProperties v =
     (case v of
        JObj ps \<Rightarrow> JObj (map (\<lambda>p. (fst p, sanitizeSchema (snd p))) ps)
      | other \<Rightarrow> sanitizeValue other)"

text \<open>The members of a \<open>schemaObject\<close>, by key.\<close>

definition schemaFields ::
  "json option \<Rightarrow> json option \<Rightarrow> json option \<Rightarrow> json option \<Rightarrow> json option \<Rightarrow> json option \<Rightarrow>
   json option \<Rightarrow> string \<Rightarrow> json option" where
  "schemaFields ty props req desc enum items addl k =
     (if k = ''type'' then ty
      else if k = ''properties'' then props
      else if k = ''required'' then req
      else if k = ''description'' then desc
      else if k = ''enum'' then enum
      else if k = ''items'' then items
      else if k = ''additionalProperties'' then addl
      else None)"





text \<open>
  No object anywhere in a JSON tree has the key \<open>k\<close>: not the value itself, not a member
  of an object or of an array in it, at any depth. The object under \<^verbatim>\<open>properties\<close>
  maps the names of the properties to their schemas: its names are no keys of a schema, and
  the search goes on in each schema.
\<close>

function keyFree :: "string \<Rightarrow> json \<Rightarrow> bool" where
  "keyFree k (JObj kvs) =
     (map_of kvs k = None \<and>
      list_all
        (\<lambda>m. if fst m = ''properties''
             then (case snd m of
                     JObj ps \<Rightarrow> list_all (\<lambda>p. keyFree k (snd p)) ps
                   | other \<Rightarrow> keyFree k other)
             else keyFree k (snd m))
        kvs)"
| "keyFree k (JArr xs) = list_all (keyFree k) xs"
| "keyFree k JNull = True"
| "keyFree k (JBool b) = True"
| "keyFree k (JNum n) = True"
| "keyFree k (JStr s) = True"
  by pat_completeness auto
termination
proof -
  have element: "x \<in> set xs \<Longrightarrow> size x < size_list size xs" for x :: json and xs
    by (induction xs) auto
  have property: "p \<in> set ps \<Longrightarrow> size (snd p) < size (JObj ps)"
    for p :: "string \<times> json" and ps
    by (induction ps) (auto simp: size_prod_simp)
  show ?thesis
    apply (relation "measure (\<lambda>a. size (snd a))")
        apply simp_all
    subgoal for kvs m xs using property[of m kvs] by simp
    subgoal for kvs m ps p using property[of m kvs] property[of p ps] by simp
    subgoal for kvs m using property[of m kvs] by simp
    subgoal for xs x using element[of x xs] by simp
    done
qed

text \<open>The same search at the value of \<^verbatim>\<open>properties\<close>.\<close>

definition keyFreeProperties :: "string \<Rightarrow> json \<Rightarrow> bool" where
  "keyFreeProperties k v =
     (case v of JObj ps \<Rightarrow> list_all (\<lambda>p. keyFree k (snd p)) ps | other \<Rightarrow> keyFree k other)"


text \<open>
  Modelled from the spec: rule 5, the rewriting of tool and function names (the function
  is missing from the sources). Every character outside \<^verbatim>\<open>[a-zA-Z0-9_-]\<close> becomes an
  underscore, and the result is cut to 64 characters.
\<close>

definition validNameChar :: "char \<Rightarrow> bool" where
  "validNameChar c =
     (c \<in> set ''abcdefghijklmnopqrstuvwxyzABCDEFGHIJKLMNOPQRSTUVWXYZ0123456789_-'')"

definition sanitizeNameChar :: "char \<Rightarrow> char" where
  "sanitizeNameChar c = (if validNameChar c then c else CHR ''_'')"

definition sanitizeToolName :: "string \<Rightarrow> string" where
  "sanitizeToolName name = take 64 (map sanitizeNameChar name)"

section \<open>Signature cache: the model\<close>

text \<open>
  The sources declare the interface of the store (\<^verbatim>\<open>get\<close>, \<^verbatim>\<open>set\<close>, \<^verbatim>\<open>has\<close>,
  \<^verbatim>\<open>delete\<close> over \<^verbatim>\<open>SignedThinking\<close> values); the module that implements it is not
  among them. The definitions of this section follow the specification of the cache.
\<close>

text \<open>
  Modelled from the spec: the scoped key (session, model, project and conversation), the
  cached value, and an entry with its expiry in milliseconds; the implementation of the
  store is missing.
\<close>

record cache_key =
  sessionId :: string
  modelId :: string
  projectKey :: string
  conversationKey :: string

record SignedThinking =
  thinkingText :: string
  signature :: string

record cache_entry =
  entryKey :: cache_key
  entryValue :: SignedThinking
  expiresAt :: int

text \<open>
  Modelled from the spec: the policy constants, one hour to live and at most 100 entries
  for one session identifier.
\<close>

definition SIGNATURE_TTL_MS :: int where
  "SIGNATURE_TTL_MS = 60 * 60 * 1000"

definition MAX_ENTRIES_PER_SESSION :: nat where
  "MAX_ENTRIES_PER_SESSION = 100"

definition ofSession :: "string \<Rightarrow> cache_entry \<Rightarrow> bool" where
  "ofSession s e = (sessionId (entryKey e) = s)"

text \<open>
  Modelled from the spec: the oldest of some entries is the one that expires first, which
  is the one inserted first; among equals, the one that stands first.
\<close>

fun oldest :: "cache_entry list \<Rightarrow> cache_entry option" where
  "oldest [] = None"
| "oldest (e # es) =
     (case oldest es of
        None \<Rightarrow> Some e
      | Some old \<Rightarrow> if expiresAt e \<le> expiresAt old then Some e else Some old)"

definition evictOldest :: "string \<Rightarrow> cache_entry list \<Rightarrow> cache_entry list" where
  "evictOldest s cache =
     (case oldest (filter (ofSession s) cache) of
        None \<Rightarrow> cache
      | Some old \<Rightarrow> remove1 old cache)"

text \<open>
  Modelled from the spec: the four operations of the store, on the list of its entries;
  \<open>now\<close> is the time of the call. Inserting under an existing key overwrites the entry
  and refreshes its expiry; inserting beyond the cap evicts the oldest entry of the
  session; no entry is returned past its expiry.
\<close>

definition cache_delete :: "cache_key \<Rightarrow> cache_entry list \<Rightarrow> cache_entry list" where
  "cache_delete k cache = filter (\<lambda>e. entryKey e \<noteq> k) cache"

definition cache_set :: "int \<Rightarrow> cache_key \<Rightarrow> SignedThinking \<Rightarrow> cache_entry list \<Rightarrow> cache_entry list" where
  "cache_set now k v cache =
     (let others = cache_delete k cache;
          kept = (if MAX_ENTRIES_PER_SESSION \<le> length (filter (ofSession (sessionId k)) others)
                  then evictOldest (sessionId k) others else others)
      in kept @ [\<lparr>entryKey = k, entryValue = v, expiresAt = now + SIGNATURE_TTL_MS\<rparr>])"

definition cache_get :: "int \<Rightarrow> cache_key \<Rightarrow> cache_entry list \<Rightarrow> SignedThinking option" where
  "cache_get now k cache =
     (case find (\<lambda>e. entryKey e = k) cache of
        None \<Rightarrow> None
      | Some e \<Rightarrow> if expiresAt e < now then None else Some (entryValue e))"

definition cache_has :: "int \<Rightarrow> cache_key \<Rightarrow> cache_entry list \<Rightarrow> bool" where
  "cache_has now k cache = (cache_get now k cache \<noteq> None)"

text \<open>The entries of the examples: entry number \<open>i\<close> of a session, expiring at \<open>i\<close>.\<close>

definition example_key :: "string \<Rightarrow> string \<Rightarrow> cache_key" where
  "example_key s c = \<lparr>sessionId = s, modelId = ''claude'', projectKey = ''p'', conversationKey = c\<rparr>"

definition example_entry :: "string \<Rightarrow> nat \<Rightarrow> cache_entry" where
  "example_entry s i =
     \<lparr>entryKey = example_key s (replicate i CHR ''c''),
      entryValue = \<lparr>thinkingText = ''t'', signature = ''s''\<rparr>,
      expiresAt = int i\<rparr>"

section \<open>Thinking blocks: the model\<close>

text \<open>
  The module with \<^verbatim>\<open>removeTrailingThinkingBlocks\<close> and \<^verbatim>\<open>hasValidSignature\<close> is not
  among the source files; the repository's documents name the two functions. The
  definitions of this section follow the specification of the filter.
\<close>

text \<open>
  Modelled from the spec: a conversation turn, an ordered sequence of tagged blocks (the
  source types are missing). A thinking block carries its text and, when it is signed,
  its signature.
\<close>

datatype block =
    TextBlock string
  | ToolCall string string
  | ToolResult string string
  | Thinking string "string option"

datatype role = System | User | Assistant | Tool

record turn =
  turnRole :: role
  blocks :: "block list"

definition isThinking :: "block \<Rightarrow> bool" where
  "isThinking b = (case b of Thinking _ _ \<Rightarrow> True | _ \<Rightarrow> False)"

text \<open>
  Modelled from the spec: \<^verbatim>\<open>hasValidSignature\<close>, a signature is judged valid when it
  is a string of at least 50 characters.
\<close>

definition hasValidSignature :: "block \<Rightarrow> bool" where
  "hasValidSignature b =
     (case b of
        Thinking _ (Some sig) \<Rightarrow> 50 \<le> length sig
      | _ \<Rightarrow> False)"

text \<open>
  Modelled from the spec: \<^verbatim>\<open>removeTrailingThinkingBlocks\<close>, as long as the last block
  of the turn is a thinking block without a valid signature, it is removed.
\<close>

function removeTrailingThinkingBlocks :: "block list \<Rightarrow> block list" where
  "removeTrailingThinkingBlocks bs =
     (if bs \<noteq> [] \<and> isThinking (last bs) \<and> \<not> hasValidSignature (last bs)
      then removeTrailingThinkingBlocks (butlast bs)
      else bs)"
  by pat_completeness auto
termination
  by (relation "measure length") auto

text \<open>Modelled from the spec: the rule applies to the turns the assistant wrote.\<close>

definition filterTurn :: "turn \<Rightarrow> turn" where
  "filterTurn t =
     (if turnRole t = Assistant
      then t\<lparr>blocks := removeTrailingThinkingBlocks (blocks t)\<rparr>
      else t)"

section \<open>Account storage: the first loop\<close>

lemma isNewer_irrefl: "\<not> isNewer a a"
  by (simp add: isNewer_def)

lemma isNewer_trans: "isNewer c b \<Longrightarrow> isNewer b a \<Longrightarrow> isNewer c a"
  by (auto simp: isNewer_def Let_def)

lemma isNewer_over: "isNewer c b \<Longrightarrow> \<not> isNewer a b \<Longrightarrow> isNewer c a"
  by (auto simp: isNewer_def Let_def)

lemma isNewer_asym: "isNewer a b \<Longrightarrow> \<not> isNewer b a"
  by (auto simp: isNewer_def Let_def)

lemma first_best_unique: "first_best accs k e i \<Longrightarrow> first_best accs k e j \<Longrightarrow> i = j"
proof (rule ccontr)
  assume a: "first_best accs k e i" and b: "first_best accs k e j" and ne: "i \<noteq> j"
  show False
  proof (cases "i < j")
    case True
    from b True a have "isNewer (accs ! j) (accs ! i)" by (auto simp: first_best_def)
    moreover from a True b have "\<not> isNewer (accs ! j) (accs ! i)"
      by (auto simp: first_best_def split: if_splits)
    ultimately show False by simp
  next
    case False
    with ne have lt: "j < i" by simp
    from a lt b have "isNewer (accs ! i) (accs ! j)" by (auto simp: first_best_def)
    moreover from b lt a have "\<not> isNewer (accs ! i) (accs ! j)"
      by (auto simp: first_best_def split: if_splits)
    ultimately show False by simp
  qed
qed

lemma first_best_new:
  assumes "\<forall>i<k. email (accs ! i) \<noteq> Some e" "email (accs ! k) = Some e"
  shows "first_best accs (Suc k) e k"
  using assms by (auto simp: first_best_def less_Suc_eq isNewer_irrefl)

lemma first_best_replace:
  assumes "first_best accs k e j" "email (accs ! k) = Some e" "isNewer (accs ! k) (accs ! j)"
  shows "first_best accs (Suc k) e k"
  unfolding first_best_def
proof (intro conjI allI impI)
  fix i assume i: "i < Suc k" and ei: "email (accs ! i) = Some e"
  show "if i < k then isNewer (accs ! k) (accs ! i) else \<not> isNewer (accs ! i) (accs ! k)"
  proof (cases "i < k")
    case True
    with assms(1) ei have "if i < j then isNewer (accs ! j) (accs ! i) else \<not> isNewer (accs ! i) (accs ! j)"
      by (simp add: first_best_def)
    then have "isNewer (accs ! k) (accs ! i)"
      using assms(3) by (auto split: if_splits intro: isNewer_trans isNewer_over)
    with True show ?thesis by simp
  next
    case False
    with i have "i = k" by simp
    then show ?thesis by (simp add: isNewer_irrefl)
  qed
qed (use assms in simp_all)

lemma first_best_keep:
  assumes "first_best accs k e j" "email (accs ! k) = Some e" "\<not> isNewer (accs ! k) (accs ! j)"
  shows "first_best accs (Suc k) e j"
  using assms by (auto simp: first_best_def less_Suc_eq)

lemma first_best_other:
  assumes "first_best accs k e j" "email (accs ! k) \<noteq> Some e"
  shows "first_best accs (Suc k) e j"
  using assms by (auto simp: first_best_def less_Suc_eq)

lemma first_best_lt: "first_best accs k e j \<Longrightarrow> j < k"
  by (simp add: first_best_def)

lemma map_inv_None: "map_inv accs k m \<Longrightarrow> m e = None \<Longrightarrow> e \<noteq> [] \<Longrightarrow> i < k \<Longrightarrow> email (accs ! i) \<noteq> Some e"
  unfolding map_inv_def by (drule spec[of _ e]) simp

lemma map_inv_Some: "map_inv accs k m \<Longrightarrow> m e = Some j \<Longrightarrow> e \<noteq> [] \<and> first_best accs k e j"
  unfolding map_inv_def by (drule spec[of _ e]) simp

lemma map_inv_skip:
  assumes "map_inv accs k m" "no_email (accs ! k)"
  shows "map_inv accs (Suc k) m"
  unfolding map_inv_def
proof
  fix e
  from assms(2) have ne: "e \<noteq> [] \<Longrightarrow> email (accs ! k) \<noteq> Some e"
    by (auto simp: no_email_def split: option.splits)
  show "case m e of
          None \<Rightarrow> e \<noteq> [] \<longrightarrow> (\<forall>i<Suc k. email (accs ! i) \<noteq> Some e)
        | Some j \<Rightarrow> e \<noteq> [] \<and> first_best accs (Suc k) e j"
  proof (cases "m e")
    case None
    with assms(1) have "e \<noteq> [] \<longrightarrow> (\<forall>i<k. email (accs ! i) \<noteq> Some e)"
      by (auto dest: map_inv_None)
    with ne None show ?thesis by (simp add: less_Suc_eq)
  next
    case (Some j)
    with assms(1) have h: "e \<noteq> []" "first_best accs k e j"
      by (auto dest: map_inv_Some)
    with ne have "first_best accs (Suc k) e j" by (simp add: first_best_other)
    with h Some show ?thesis by simp
  qed
qed

lemma map_inv_upd:
  assumes inv: "map_inv accs k m" and e0: "email (accs ! k) = Some e0" "e0 \<noteq> []"
    and fb: "first_best accs (Suc k) e0 j'"
  shows "map_inv accs (Suc k) (m(e0 \<mapsto> j'))"
  unfolding map_inv_def
proof
  fix e
  show "case (m(e0 \<mapsto> j')) e of
          None \<Rightarrow> e \<noteq> [] \<longrightarrow> (\<forall>i<Suc k. email (accs ! i) \<noteq> Some e)
        | Some j \<Rightarrow> e \<noteq> [] \<and> first_best accs (Suc k) e j"
  proof (cases "e = e0")
    case True
    with e0 fb show ?thesis by simp
  next
    case False
    then have ne: "email (accs ! k) \<noteq> Some e" using e0 by simp
    show ?thesis
    proof (cases "m e")
      case None
      with inv have "e \<noteq> [] \<longrightarrow> (\<forall>i<k. email (accs ! i) \<noteq> Some e)"
        by (auto dest: map_inv_None)
      with ne None False show ?thesis by (simp add: less_Suc_eq)
    next
      case (Some j)
      with inv have h: "e \<noteq> []" "first_best accs k e j"
        by (auto dest: map_inv_Some)
      with ne have "first_best accs (Suc k) e j" by (simp add: first_best_other)
      with h Some False show ?thesis by simp
    qed
  qed
qed

lemma pass_inv_step:
  assumes inv: "pass_inv accs k st" and k: "k < length accs"
  shows "pass_inv accs (Suc k) (first_pass_step accs k st)"
proof (cases "no_email (accs ! k)")
  case True
  have st: "first_pass_step accs k st = st\<lparr>indicesToKeep := insert k (indicesToKeep st)\<rparr>"
    using True by (simp add: first_pass_step_def no_email_def split: option.splits)
  have "indicesToKeep (first_pass_step accs k st) = {i. i < Suc k \<and> no_email (accs ! i)}"
    using inv True by (auto simp: st pass_inv_def less_Suc_eq)
  moreover have "map_inv accs (Suc k) (map_of (emailToNewestIndex st))"
    using inv True by (simp add: pass_inv_def map_inv_skip)
  ultimately show ?thesis using inv by (simp add: pass_inv_def st)
next
  case False
  then obtain e0 where e0: "email (accs ! k) = Some e0" "e0 \<noteq> []"
    by (auto simp: no_email_def split: option.splits)
  define m where "m = emailToNewestIndex st"
  have hm: "map_inv accs k (map_of m)"
    using inv by (simp add: pass_inv_def m_def)
  have keep: "indicesToKeep st = {i. i < Suc k \<and> no_email (accs ! i)}"
    using inv False by (auto simp: pass_inv_def less_Suc_eq)
  have dist: "distinct (map fst m)" using inv by (simp add: pass_inv_def m_def)
  have upd: "\<And>j'. first_best accs (Suc k) e0 j' \<Longrightarrow>
      pass_inv accs (Suc k) (st\<lparr>emailToNewestIndex := AList.update e0 j' m\<rparr>)"
  proof -
    fix j' assume fb: "first_best accs (Suc k) e0 j'"
    have "map_of (AList.update e0 j' m) = (map_of m)(e0 \<mapsto> j')"
      by (rule ext) (simp add: update_conv)
    with map_inv_upd[OF hm e0 fb] keep dist
    show "pass_inv accs (Suc k) (st\<lparr>emailToNewestIndex := AList.update e0 j' m\<rparr>)"
      by (simp add: pass_inv_def distinct_update)
  qed
  consider (new) "map_of m e0 = None"
    | (repl) j where "map_of m e0 = Some j" "isNewer (accs ! k) (accs ! j)"
    | (same) j where "map_of m e0 = Some j" "\<not> isNewer (accs ! k) (accs ! j)"
    by (cases "map_of m e0") auto
  then show ?thesis
  proof cases
    case new
    have st: "first_pass_step accs k st = st\<lparr>emailToNewestIndex := AList.update e0 k m\<rparr>"
      using False e0 new by (simp add: first_pass_step_def m_def)
    have "\<forall>i<k. email (accs ! i) \<noteq> Some e0"
      using hm new e0 by (auto dest: map_inv_None)
    then have fb: "first_best accs (Suc k) e0 k"
      using e0 by (simp add: first_best_new)
    show ?thesis unfolding st by (rule upd[OF fb])
  next
    case repl
    have fbj: "first_best accs k e0 j" using hm repl(1) by (auto dest: map_inv_Some)
    then have jk: "j < length accs" using k by (auto dest: first_best_lt)
    have st: "first_pass_step accs k st = st\<lparr>emailToNewestIndex := AList.update e0 k m\<rparr>"
      using False e0 repl jk by (simp add: first_pass_step_def m_def)
    have fb: "first_best accs (Suc k) e0 k"
      using fbj repl e0 by (auto intro: first_best_replace)
    show ?thesis unfolding st by (rule upd[OF fb])
  next
    case same
    have fbj: "first_best accs k e0 j" using hm same(1) by (auto dest: map_inv_Some)
    then have jk: "j < length accs" using k by (auto dest: first_best_lt)
    have st: "first_pass_step accs k st = st"
      using False e0 same jk by (simp add: first_pass_step_def m_def)
    have fb: "first_best accs (Suc k) e0 j"
      using fbj same e0 by (auto intro: first_best_keep)
    have "(map_of m)(e0 \<mapsto> j) = map_of m" using same(1) by (simp add: fun_upd_idem_iff)
    with map_inv_upd[OF hm e0 fb] have "map_inv accs (Suc k) (map_of m)" by simp
    then show ?thesis unfolding st using keep dist by (simp add: pass_inv_def m_def)
  qed
qed

lemma pass_inv_fold:
  "k \<le> length accs \<Longrightarrow>
   pass_inv accs k (fold (first_pass_step accs) [0..<k] \<lparr>emailToNewestIndex = [], indicesToKeep = {}\<rparr>)"
proof (induction k)
  case 0
  show ?case by (simp add: pass_inv_def map_inv_def)
next
  case (Suc k)
  then show ?case by (simp add: pass_inv_step)
qed

lemma first_pass_inv: "pass_inv accs (length accs) (first_pass accs)"
  unfolding first_pass_def by (rule pass_inv_fold) simp

lemma fold_insert_set: "fold (\<lambda>idx keep. insert idx keep) xs A = set xs \<union> A"
  by (induction xs arbitrary: A) auto

lemma kept_indices_iff:
  "i \<in> kept_indices accs \<longleftrightarrow>
     i < length accs \<and>
     (no_email (accs ! i) \<or> (\<exists>e. first_best accs (length accs) e i))"
proof -
  define st where "st = first_pass accs"
  define m where "m = emailToNewestIndex st"
  have inv: "pass_inv accs (length accs) st" by (simp add: st_def first_pass_inv)
  then have keep: "indicesToKeep st = {i. i < length accs \<and> no_email (accs ! i)}"
    and dist: "distinct (map fst m)" and hm: "map_inv accs (length accs) (map_of m)"
    by (simp_all add: pass_inv_def m_def)
  have kept: "kept_indices accs = snd ` set m \<union> indicesToKeep st"
    by (simp add: kept_indices_def second_pass_def fold_insert_set st_def m_def)
  have ran: "snd ` set m = ran (map_of m)" using dist by (simp add: ran_distinct)
  show ?thesis
  proof
    assume "i \<in> kept_indices accs"
    then consider "i \<in> indicesToKeep st" | e where "map_of m e = Some i"
      unfolding kept ran by (auto simp: ran_def)
    then show "i < length accs \<and> (no_email (accs ! i) \<or> (\<exists>e. first_best accs (length accs) e i))"
    proof cases
      case 1
      then show ?thesis by (simp add: keep)
    next
      case 2
      with hm have "first_best accs (length accs) e i" by (auto dest: map_inv_Some)
      then show ?thesis by (auto dest: first_best_lt)
    qed
  next
    assume a: "i < length accs \<and> (no_email (accs ! i) \<or> (\<exists>e. first_best accs (length accs) e i))"
    show "i \<in> kept_indices accs"
    proof (cases "no_email (accs ! i)")
      case True
      with a show ?thesis by (simp add: kept keep)
    next
      case False
      with a obtain e where fb: "first_best accs (length accs) e i" by auto
      then have ei: "email (accs ! i) = Some e" by (simp add: first_best_def)
      with False have ne: "e \<noteq> []" by (simp add: no_email_def)
      have "map_of m e \<noteq> None"
      proof
        assume "map_of m e = None"
        from map_inv_None[OF hm this ne] a ei show False by auto
      qed
      then obtain j where j: "map_of m e = Some j" by auto
      with hm have "first_best accs (length accs) e j" by (auto dest: map_inv_Some)
      with fb have "j = i" by (auto dest: first_best_unique)
      with j have "i \<in> ran (map_of m)" by (auto simp: ran_def)
      then show ?thesis by (simp add: kept ran)
    qed
  qed
qed

lemma kept_unique_per_email:
  assumes "i \<in> kept_indices accs" "j \<in> kept_indices accs"
    and "email (accs ! i) = Some e" "email (accs ! j) = Some e" "e \<noteq> []"
  shows "i = j"
proof -
  from assms(1,3,5) obtain e1 where "first_best accs (length accs) e1 i"
    by (auto simp: kept_indices_iff no_email_def)
  with assms(3) have fi: "first_best accs (length accs) e i" by (auto simp: first_best_def)
  from assms(2,4,5) obtain e2 where "first_best accs (length accs) e2 j"
    by (auto simp: kept_indices_iff no_email_def)
  with assms(4) have fj: "first_best accs (length accs) e j" by (auto simp: first_best_def)
  from fi fj show ?thesis by (rule first_best_unique)
qed

lemma dedup_all_kept:
  assumes "\<forall>i<length accs. i \<in> kept_indices accs"
  shows "deduplicateAccountsByEmail accs = accs"
proof -
  have "filter (\<lambda>i. i \<in> kept_indices accs) [0..<length accs] = [0..<length accs]"
    using assms by (simp add: filter_id_conv)
  then show ?thesis by (simp add: deduplicateAccountsByEmail_def map_nth)
qed

lemma dedup_idem: "deduplicateAccountsByEmail (deduplicateAccountsByEmail accs) = deduplicateAccountsByEmail accs"
proof (rule dedup_all_kept, intro allI impI)
  define f where "f = filter (\<lambda>i. i \<in> kept_indices accs) [0..<length accs]"
  define ys where "ys = deduplicateAccountsByEmail accs"
  have ys: "ys = map (\<lambda>i. accs ! i) f" by (simp add: ys_def f_def deduplicateAccountsByEmail_def)
  have len: "length ys = length f" by (simp add: ys)
  have df: "distinct f" by (simp add: f_def)
  have fk: "\<And>p. p < length f \<Longrightarrow> f ! p \<in> kept_indices accs"
  proof -
    fix p assume "p < length f"
    then have "f ! p \<in> set f" by simp
    then show "f ! p \<in> kept_indices accs" by (simp add: f_def)
  qed
  fix p assume "p < length (deduplicateAccountsByEmail accs)"
  then have p: "p < length f" by (simp add: ys_def[symmetric] len)
  have "p \<in> kept_indices ys"
  proof (cases "no_email (ys ! p)")
    case True
    with p show ?thesis by (simp add: kept_indices_iff len)
  next
    case False
    then obtain e where e: "email (ys ! p) = Some e" "e \<noteq> []"
      by (auto simp: no_email_def split: option.splits)
    have "first_best ys (length ys) e p"
      unfolding first_best_def
    proof (intro conjI allI impI)
      fix q assume q: "q < length ys" and eq: "email (ys ! q) = Some e"
      have "f ! q = f ! p"
        using kept_unique_per_email[OF fk fk, of q p e] q p e eq by (simp add: ys len)
      with df q p have "q = p" by (simp add: nth_eq_iff_index_eq len)
      then show "if q < p then isNewer (ys ! p) (ys ! q) else \<not> isNewer (ys ! q) (ys ! p)"
        by (simp add: isNewer_irrefl)
    qed (use p e in \<open>simp_all add: len\<close>)
    with p show ?thesis by (auto simp: kept_indices_iff len)
  qed
  then show "p \<in> kept_indices (deduplicateAccountsByEmail accs)" by (simp add: ys_def)
qed

lemma dedup_subseq: "subseq (deduplicateAccountsByEmail accs) accs"
proof -
  have "subseq (filter (\<lambda>i. i \<in> kept_indices accs) [0..<length accs]) [0..<length accs]"
    by simp
  then have "subseq (map (\<lambda>i. accs ! i) (filter (\<lambda>i. i \<in> kept_indices accs) [0..<length accs]))
                    (map (\<lambda>i. accs ! i) [0..<length accs])"
    by (rule subseq_map)
  then show ?thesis by (simp add: deduplicateAccountsByEmail_def map_nth)
qed

lemma set_dedup: "set (deduplicateAccountsByEmail accs) = (\<lambda>i. accs ! i) ` kept_indices accs"
proof -
  have "kept_indices accs \<subseteq> {..<length accs}" by (auto simp: kept_indices_iff)
  then have "set (filter (\<lambda>i. i \<in> kept_indices accs) [0..<length accs]) = kept_indices accs"
    by auto
  then show ?thesis by (simp add: deduplicateAccountsByEmail_def)
qed

section \<open>Account storage: de-duplication and loading\<close>

lemma first_best_exists:
  assumes "i < length accs" "email (accs ! i) = Some e" "e \<noteq> []"
  shows "\<exists>j. first_best accs (length accs) e j"
proof -
  define m where "m = map_of (emailToNewestIndex (first_pass accs))"
  have hm: "map_inv accs (length accs) m"
    using first_pass_inv[of accs] by (simp add: pass_inv_def m_def)
  have "m e \<noteq> None"
  proof
    assume "m e = None"
    from map_inv_None[OF hm this assms(3) assms(1)] assms(2) show False by simp
  qed
  then obtain j where "m e = Some j" by auto
  with hm show ?thesis by (auto dest: map_inv_Some)
qed

lemma first_best_kept: "first_best accs (length accs) e j \<Longrightarrow> j \<in> kept_indices accs"
  by (auto simp: kept_indices_iff dest: first_best_lt)

lemma first_best_max:
  assumes "first_best accs (length accs) e j" "i < length accs" "email (accs ! i) = Some e"
  shows "lastUsed (accs ! i) < lastUsed (accs ! j) \<or>
         (lastUsed (accs ! i) = lastUsed (accs ! j) \<and> addedAt (accs ! i) \<le> addedAt (accs ! j))"
proof -
  from assms have "if i < j then isNewer (accs ! j) (accs ! i) else \<not> isNewer (accs ! i) (accs ! j)"
    by (simp add: first_best_def)
  then have "\<not> isNewer (accs ! i) (accs ! j)"
    by (auto split: if_splits dest: isNewer_asym)
  then show ?thesis by (auto simp: isNewer_def or_zero_def Let_def)
qed

lemma removed_has_survivor:
  assumes "i < length accs" "i \<notin> kept_indices accs"
  shows "\<exists>j e. j < length accs \<and> j \<noteq> i \<and> j \<in> kept_indices accs \<and> e \<noteq> [] \<and>
           email (accs ! i) = Some e \<and> email (accs ! j) = Some e \<and>
           (lastUsed (accs ! i) < lastUsed (accs ! j) \<or>
            (lastUsed (accs ! i) = lastUsed (accs ! j) \<and> addedAt (accs ! i) \<le> addedAt (accs ! j)))"
proof -
  from assms have ne: "\<not> no_email (accs ! i)" by (auto simp: kept_indices_iff)
  then obtain e where e: "email (accs ! i) = Some e" "e \<noteq> []"
    by (auto simp: no_email_def split: option.splits)
  from first_best_exists[OF assms(1) e] obtain j where j: "first_best accs (length accs) e j" by auto
  then have jk: "j \<in> kept_indices accs" by (rule first_best_kept)
  with assms(2) have "j \<noteq> i" by auto
  moreover from j have "j < length accs" "email (accs ! j) = Some e" by (simp_all add: first_best_def)
  moreover note first_best_max[OF j assms(1) e(1)] jk e
  ultimately show ?thesis by blast
qed

lemma clampActiveIndex_range:
  "0 < len \<Longrightarrow> 0 \<le> clampActiveIndex stored len \<and> clampActiveIndex stored len < of_nat len"
  by (cases stored) (auto simp: clampActiveIndex_def)

lemma clampActiveIndex_empty: "clampActiveIndex stored 0 = 0"
  by (simp add: clampActiveIndex_def)


lemma finishLoad_activeIndex:
  "(accounts (finishLoad es stored) \<noteq> [] \<longrightarrow>
      0 \<le> activeIndex (finishLoad es stored) \<and>
      activeIndex (finishLoad es stored) < of_nat (length (accounts (finishLoad es stored)))) \<and>
   (accounts (finishLoad es stored) = [] \<longrightarrow> activeIndex (finishLoad es stored) = 0)"
  using clampActiveIndex_range[of "length (deduplicateAccountsByEmail (validAccounts es))" stored]
  by (auto simp: finishLoad_def Let_def clampActiveIndex_empty)

lemma migrateEntries_Inr_iff: "(\<exists>es'. migrateEntries now es = Inr es') \<longleftrightarrow> JsonNull \<notin> set es"
proof (induction es)
  case Nil
  show ?case by simp
next
  case (Cons e es)
  then show ?case by (cases e) (auto split: sum.splits)
qed

lemma migrateEntries_valid:
  "migrateEntries now es = Inr es' \<Longrightarrow> validAccounts es' = map (migrateAccount now) (validAccounts es)"
proof (induction es arbitrary: es')
  case Nil
  then show ?case by simp
next
  case (Cons e es)
  then show ?case by (cases e) (auto split: sum.splits)
qed

lemma set_validAccounts: "set (validAccounts es) = {a. Account a \<in> set es}"
proof (induction es)
  case Nil
  show ?case by simp
next
  case (Cons e es)
  then show ?case by (cases e) auto
qed

lemma loadAccounts_V2: "loadAccounts now ok (Parsed (DataV2 es stored)) = ([], Some (finishLoad es stored))"
  by (simp add: loadAccounts_def loadAccounts_try_def)

lemma loadAccounts_V1:
  "migrateEntries now es = Inr es' \<Longrightarrow>
   snd (loadAccounts now ok (Parsed (DataV1 es stored))) = Some (finishLoad es' stored)"
  by (simp add: loadAccounts_def loadAccounts_try_def migrateV1ToV2_def)

lemma migrateEntries_Inl: "migrateEntries now es = Inl x \<Longrightarrow> x = TypeError"
proof (induction es)
  case Nil
  then show ?case by simp
next
  case (Cons e es)
  then show ?case by (cases e) (auto split: sum.splits)
qed

lemma loadAccounts_V1_null:
  "JsonNull \<in> set es \<Longrightarrow>
   loadAccounts now ok (Parsed (DataV1 es stored)) =
     ([Info ''[opencode-antigravity-auth] Migrating account storage from v1 to v2'',
       Error ''[opencode-antigravity-auth] Failed to load account storage:''], None)"
proof -
  assume "JsonNull \<in> set es"
  then have "\<nexists>es'. migrateEntries now es = Inr es'" by (simp add: migrateEntries_Inr_iff)
  then obtain x where "migrateEntries now es = Inl x" by (cases "migrateEntries now es") auto
  with migrateEntries_Inl[of now es x] show ?thesis
    by (simp add: loadAccounts_def loadAccounts_try_def migrateV1ToV2_def)
qed

lemma loadAccounts_Some:
  assumes "snd (loadAccounts now ok fstate) = Some st"
  shows "\<exists>d es stored. fstate = Parsed d \<and> st = finishLoad es stored \<and>
           validAccounts es = stored_accounts now d"
proof (cases fstate)
  case (ReadFails code)
  with assms show ?thesis by (simp add: loadAccounts_def loadAccounts_try_def split: if_splits)
next
  case Unparseable
  with assms show ?thesis by (simp add: loadAccounts_def loadAccounts_try_def)
next
  case (Parsed d)
  show ?thesis
  proof (cases d)
    case (DataV1 es stored)
    show ?thesis
    proof (cases "migrateEntries now es")
      case (Inl x)
      with assms Parsed DataV1 migrateEntries_Inl[of now es x] show ?thesis
        by (simp add: loadAccounts_def loadAccounts_try_def migrateV1ToV2_def)
    next
      case (Inr es')
      with assms Parsed DataV1 have "st = finishLoad es' stored"
        by (simp add: loadAccounts_V1)
      with Parsed DataV1 migrateEntries_valid[OF Inr] show ?thesis
        by (auto simp: stored_accounts_def)
    qed
  next
    case (DataV2 es stored)
    with assms Parsed show ?thesis by (auto simp: loadAccounts_V2 stored_accounts_def)
  qed (use assms Parsed in \<open>simp_all add: loadAccounts_def loadAccounts_try_def\<close>)
qed



lemma finishLoad_simps:
  "version (finishLoad es stored) = 2"
  "accounts (finishLoad es stored) = deduplicateAccountsByEmail (validAccounts es)"
  by (simp_all add: finishLoad_def Let_def)

lemma migrateAccount_fields:
  "email (migrateAccount now a) = emailV1 a"
  "refreshToken (migrateAccount now a) = refreshTokenV1 a"
  "projectId (migrateAccount now a) = projectIdV1 a"
  "managedProjectId (migrateAccount now a) = managedProjectIdV1 a"
  "addedAt (migrateAccount now a) = addedAtV1 a"
  "lastUsed (migrateAccount now a) = lastUsedV1 a"
  "lastSwitchReason (migrateAccount now a) = lastSwitchReasonV1 a"
  by (simp_all add: migrateAccount_def Let_def)

lemma migrateAccount_rateLimit:
  assumes "0 \<le> now"
  shows "rateLimitResetTimes (migrateAccount now a) =
           (if isRateLimited a = Some True \<and> (\<exists>t. rateLimitResetTime a = Some t \<and> now < t)
            then Some \<lparr>claude = rateLimitResetTime a, gemini = rateLimitResetTime a\<rparr>
            else None)"
  using assms by (cases "rateLimitResetTime a") (auto simp: migrateAccount_def Let_def)

lemma set_dedup_subset: "set (deduplicateAccountsByEmail accs) \<subseteq> set accs"
  by (auto simp: set_dedup kept_indices_iff)

lemma dedup_survives_or_superseded:
  assumes "a \<in> set accs"
  shows "a \<in> set (deduplicateAccountsByEmail accs) \<or>
         (\<exists>b \<in> set (deduplicateAccountsByEmail accs).
            email b = email a \<and> \<not> no_email a \<and>
            (lastUsed a < lastUsed b \<or> (lastUsed a = lastUsed b \<and> addedAt a \<le> addedAt b)))"
proof -
  from assms obtain i where i: "i < length accs" "accs ! i = a" by (auto simp: in_set_conv_nth)
  show ?thesis
  proof (cases "i \<in> kept_indices accs")
    case True
    with i show ?thesis by (auto simp: set_dedup)
  next
    case False
    from removed_has_survivor[OF i(1) False] obtain j e where
      j: "j \<in> kept_indices accs" "e \<noteq> []" "email (accs ! i) = Some e" "email (accs ! j) = Some e"
        "lastUsed (accs ! i) < lastUsed (accs ! j) \<or>
         (lastUsed (accs ! i) = lastUsed (accs ! j) \<and> addedAt (accs ! i) \<le> addedAt (accs ! j))"
      by blast
    have "accs ! j \<in> set (deduplicateAccountsByEmail accs)" using j(1) by (simp add: set_dedup)
    moreover have "\<not> no_email a" using j(2,3) i by (simp add: no_email_def)
    ultimately show ?thesis using j i by auto
  qed
qed

section \<open>Account storage: the claims\<close>

text \<open>
  Claim C1, as amended. \<^verbatim>\<open>deduplicateAccountsByEmail\<close> keeps the accounts at the indices
  \<open>kept_indices\<close>, in the order of the input. An account with no email, or with the empty
  string as its email, is always kept. An account is removed only when another account,
  which is kept, has the same email. For every non-empty email of the list exactly one
  account with that email is kept, and no account with that email has a greater
  \<^verbatim>\<open>lastUsed\<close>, or the same \<^verbatim>\<open>lastUsed\<close> and a greater \<^verbatim>\<open>addedAt\<close>.
\<close>

theorem dedup_keeps_newest_per_email:
  "(\<forall>i<length accs. no_email (accs ! i) \<longrightarrow> i \<in> kept_indices accs) \<and>
   (\<forall>i<length accs. i \<notin> kept_indices accs \<longrightarrow>
      (\<exists>j<length accs. j \<noteq> i \<and> j \<in> kept_indices accs \<and> email (accs ! j) = email (accs ! i))) \<and>
   (\<forall>i<length accs. \<forall>e. email (accs ! i) = Some e \<and> e \<noteq> [] \<longrightarrow>
      (\<exists>j. j \<in> kept_indices accs \<and> email (accs ! j) = Some e \<and>
           (\<forall>j'. j' \<in> kept_indices accs \<and> email (accs ! j') = Some e \<longrightarrow> j' = j) \<and>
           (lastUsed (accs ! i) < lastUsed (accs ! j) \<or>
            (lastUsed (accs ! i) = lastUsed (accs ! j) \<and> addedAt (accs ! i) \<le> addedAt (accs ! j))))) \<and>
   kept_indices accs \<subseteq> {..<length accs} \<and>
   deduplicateAccountsByEmail accs =
     map (\<lambda>i. accs ! i) (filter (\<lambda>i. i \<in> kept_indices accs) [0..<length accs])"
proof (intro conjI allI impI)
  fix i assume "i < length accs" "no_email (accs ! i)"
  then show "i \<in> kept_indices accs" by (simp add: kept_indices_iff)
next
  fix i assume "i < length accs" "i \<notin> kept_indices accs"
  from removed_has_survivor[OF this]
  show "\<exists>j<length accs. j \<noteq> i \<and> j \<in> kept_indices accs \<and> email (accs ! j) = email (accs ! i)"
    by auto
next
  fix i e assume i: "i < length accs" and e: "email (accs ! i) = Some e \<and> e \<noteq> []"
  from first_best_exists[OF i] e obtain j where j: "first_best accs (length accs) e j" by auto
  have ej: "email (accs ! j) = Some e" using j by (simp add: first_best_def)
  have "\<forall>j'. j' \<in> kept_indices accs \<and> email (accs ! j') = Some e \<longrightarrow> j' = j"
    using kept_unique_per_email[OF _ first_best_kept[OF j] _ ej] e by blast
  with first_best_kept[OF j] ej first_best_max[OF j i] e
  show "\<exists>j. j \<in> kept_indices accs \<and> email (accs ! j) = Some e \<and>
           (\<forall>j'. j' \<in> kept_indices accs \<and> email (accs ! j') = Some e \<longrightarrow> j' = j) \<and>
           (lastUsed (accs ! i) < lastUsed (accs ! j) \<or>
            (lastUsed (accs ! i) = lastUsed (accs ! j) \<and> addedAt (accs ! i) \<le> addedAt (accs ! j)))"
    by blast
next
  show "kept_indices accs \<subseteq> {..<length accs}" by (auto simp: kept_indices_iff)
next
  show "deduplicateAccountsByEmail accs =
     map (\<lambda>i. accs ! i) (filter (\<lambda>i. i \<in> kept_indices accs) [0..<length accs])"
    by (simp add: deduplicateAccountsByEmail_def)
qed

text \<open>
  Claim C1, the amended statement at a concrete list: two accounts with one email, the
  second added later, and an account with no email. The first is removed, the other two
  are kept.
\<close>

theorem dedup_keeps_newest_per_email_witness:
  "(0::nat) < length [account_of (Some ''a@example.com'') ''token-1'' 1 1,
                      account_of (Some ''a@example.com'') ''token-2'' 2 1,
                      account_of None ''token-3'' 0 0] \<and>
   0 \<notin> kept_indices [account_of (Some ''a@example.com'') ''token-1'' 1 1,
                      account_of (Some ''a@example.com'') ''token-2'' 2 1,
                      account_of None ''token-3'' 0 0] \<and>
   no_email (account_of None ''token-3'' 0 0) \<and>
   ''a@example.com'' \<noteq> [] \<and>
   deduplicateAccountsByEmail
     [account_of (Some ''a@example.com'') ''token-1'' 1 1,
      account_of (Some ''a@example.com'') ''token-2'' 2 1,
      account_of None ''token-3'' 0 0] =
     [account_of (Some ''a@example.com'') ''token-2'' 2 1, account_of None ''token-3'' 0 0]"
  using dedup_keeps_newest_per_email
    [of "[account_of (Some ''a@example.com'') ''token-1'' 1 1,
          account_of (Some ''a@example.com'') ''token-2'' 2 1,
          account_of None ''token-3'' 0 0]"]
  by (simp add: deduplicateAccountsByEmail_def kept_indices_def second_pass_def first_pass_def
      first_pass_step_def account_of_def no_email_def isNewer_def or_zero_def upt_rec)

text \<open>
  Claim C1 as stated fails where the shared email is the empty string: the guard
  \<^verbatim>\<open>!acc.email\<close> takes it for no email, and both accounts survive, the one with the
  smaller \<^verbatim>\<open>lastUsed\<close> too.
\<close>

theorem dedup_keeps_newest_per_email_counterexample:
  "deduplicateAccountsByEmail
     [account_of (Some []) ''token-1'' 1 1, account_of (Some []) ''token-2'' 2 2] =
     [account_of (Some []) ''token-1'' 1 1, account_of (Some []) ''token-2'' 2 2] \<and>
   email (account_of (Some []) ''token-1'' 1 1) = email (account_of (Some []) ''token-2'' 2 2) \<and>
   lastUsed (account_of (Some []) ''token-1'' 1 1) < lastUsed (account_of (Some []) ''token-2'' 2 2)"
  by (simp add: deduplicateAccountsByEmail_def kept_indices_def second_pass_def first_pass_def
      first_pass_step_def account_of_def no_email_def isNewer_def or_zero_def upt_rec)




text \<open>
  The stored index that the amended claim leaves out: \<^verbatim>\<open>Math.min\<close> and
  \<^verbatim>\<open>Math.max\<close> do not round, so a stored \<^verbatim>\<open>1.5\<close> with three accounts is
  returned as \<^verbatim>\<open>1.5\<close>.
\<close>

lemma loadAccounts_fractional_activeIndex:
  "snd (loadAccounts 0 True (Parsed (DataV2
      [Account (account_of None ''token-1'' 1 1), Account (account_of None ''token-2'' 2 2),
       Account (account_of None ''token-3'' 3 3)]
      (Num (3 / 2))))) =
     Some \<lparr>version = 2,
           accounts = [account_of None ''token-1'' 1 1, account_of None ''token-2'' 2 2,
                       account_of None ''token-3'' 3 3],
           activeIndex = 3 / 2\<rparr> \<and>
   fractional (Num (3 / 2))"
  by (rule conjI, simp add: loadAccounts_def loadAccounts_try_def finishLoad_def deduplicateAccountsByEmail_def
        kept_indices_def second_pass_def first_pass_def first_pass_step_def account_of_def
        no_email_def clampActiveIndex_def upt_rec) code_simp

text \<open>
  Claim C3. With the clock at or after the epoch, loading a version-1 storage (an array of
  records, none of them \<^verbatim>\<open>null\<close>) returns a version-2 storage whose accounts are the
  de-duplicated migrations of the stored records. For each of them
  \<^verbatim>\<open>rateLimitResetTimes\<close> is present exactly when the version-1 record has
  \<^verbatim>\<open>isRateLimited\<close> set and a \<^verbatim>\<open>rateLimitResetTime\<close> after \<^verbatim>\<open>Date.now()\<close>, and
  then both families hold that reset time; the seven other fields are those of the
  version-1 record.
\<close>

theorem loadAccounts_migrates_v1:
  assumes "0 \<le> now" and "JsonNull \<notin> set entries"
  shows "\<exists>st. snd (loadAccounts now save_ok (Parsed (DataV1 entries stored))) = Some st \<and>
           version st = 2 \<and>
           accounts st = deduplicateAccountsByEmail (map (migrateAccount now) (validAccounts entries)) \<and>
           (\<forall>b \<in> set (accounts st). \<exists>a. Account a \<in> set entries \<and> b = migrateAccount now a \<and>
              rateLimitResetTimes b =
                (if isRateLimited a = Some True \<and> (\<exists>t. rateLimitResetTime a = Some t \<and> now < t)
                 then Some \<lparr>claude = rateLimitResetTime a, gemini = rateLimitResetTime a\<rparr>
                 else None) \<and>
              email b = emailV1 a \<and> refreshToken b = refreshTokenV1 a \<and>
              projectId b = projectIdV1 a \<and> managedProjectId b = managedProjectIdV1 a \<and>
              addedAt b = addedAtV1 a \<and> lastUsed b = lastUsedV1 a \<and>
              lastSwitchReason b = lastSwitchReasonV1 a)"
proof -
  from assms(2) obtain es' where es': "migrateEntries now entries = Inr es'"
    using migrateEntries_Inr_iff[of now entries] by auto
  let ?st = "finishLoad es' stored"
  have acc: "accounts ?st = deduplicateAccountsByEmail (map (migrateAccount now) (validAccounts entries))"
    by (simp add: finishLoad_simps migrateEntries_valid[OF es'])
  have "\<forall>b \<in> set (accounts ?st). \<exists>a. Account a \<in> set entries \<and> b = migrateAccount now a"
    using set_dedup_subset[of "map (migrateAccount now) (validAccounts entries)"]
    by (auto simp: acc set_validAccounts)
  then have "\<forall>b \<in> set (accounts ?st). \<exists>a. Account a \<in> set entries \<and> b = migrateAccount now a \<and>
              rateLimitResetTimes b =
                (if isRateLimited a = Some True \<and> (\<exists>t. rateLimitResetTime a = Some t \<and> now < t)
                 then Some \<lparr>claude = rateLimitResetTime a, gemini = rateLimitResetTime a\<rparr>
                 else None) \<and>
              email b = emailV1 a \<and> refreshToken b = refreshTokenV1 a \<and>
              projectId b = projectIdV1 a \<and> managedProjectId b = managedProjectIdV1 a \<and>
              addedAt b = addedAtV1 a \<and> lastUsed b = lastUsedV1 a \<and>
              lastSwitchReason b = lastSwitchReasonV1 a"
    using migrateAccount_rateLimit[OF assms(1)] migrateAccount_fields by metis
  with acc loadAccounts_V1[OF es', of save_ok stored] show ?thesis
    by (intro exI[of _ ?st]) (simp add: finishLoad_simps)
qed

text \<open>
  Claim C3 at a concrete file, read at time 1000: a record limited until 2000 keeps the
  reset time for both families, a record limited until 500 loses it.
\<close>

theorem loadAccounts_migrates_v1_witness:
  "(0::int) \<le> 1000 \<and>
   JsonNull \<notin> set [Account (account_v1_of ''token-1'' (Some True) (Some 2000)),
                    Account (account_v1_of ''token-2'' (Some True) (Some 500))] \<and>
   (\<exists>st. snd (loadAccounts 1000 True (Parsed (DataV1
             [Account (account_v1_of ''token-1'' (Some True) (Some 2000)),
              Account (account_v1_of ''token-2'' (Some True) (Some 500))] (Num 0)))) = Some st \<and>
         version st = 2 \<and>
         map rateLimitResetTimes (accounts st) =
           [Some \<lparr>claude = Some 2000, gemini = Some 2000\<rparr>, None] \<and>
         map refreshToken (accounts st) = [''token-1'', ''token-2''])"
proof -
  have h0: "(0::int) \<le> 1000" by simp
  have h1: "JsonNull \<notin> set [Account (account_v1_of ''token-1'' (Some True) (Some 2000)),
                    Account (account_v1_of ''token-2'' (Some True) (Some 500))]" by simp
  have d: "deduplicateAccountsByEmail
             (map (migrateAccount 1000)
               (validAccounts [Account (account_v1_of ''token-1'' (Some True) (Some 2000)),
                               Account (account_v1_of ''token-2'' (Some True) (Some 500))])) =
           [migrateAccount 1000 (account_v1_of ''token-1'' (Some True) (Some 2000)),
            migrateAccount 1000 (account_v1_of ''token-2'' (Some True) (Some 500))]"
    by (simp add: deduplicateAccountsByEmail_def kept_indices_def second_pass_def first_pass_def
        first_pass_step_def account_v1_of_def migrateAccount_def no_email_def upt_rec)
  from loadAccounts_migrates_v1[OF h0 h1, of True "Num 0"] obtain st where
    st: "snd (loadAccounts 1000 True (Parsed (DataV1
             [Account (account_v1_of ''token-1'' (Some True) (Some 2000)),
              Account (account_v1_of ''token-2'' (Some True) (Some 500))] (Num 0)))) = Some st"
        "version st = 2"
        "accounts st = deduplicateAccountsByEmail
             (map (migrateAccount 1000)
               (validAccounts [Account (account_v1_of ''token-1'' (Some True) (Some 2000)),
                               Account (account_v1_of ''token-2'' (Some True) (Some 500))]))"
    by (elim exE conjE)
  have "map rateLimitResetTimes (accounts st) =
           [Some \<lparr>claude = Some 2000, gemini = Some 2000\<rparr>, None]"
       "map refreshToken (accounts st) = [''token-1'', ''token-2'']"
    unfolding st(3) d by (simp_all add: migrateAccount_def account_v1_of_def)
  with st(1,2) have "\<exists>st. snd (loadAccounts 1000 True (Parsed (DataV1
             [Account (account_v1_of ''token-1'' (Some True) (Some 2000)),
              Account (account_v1_of ''token-2'' (Some True) (Some 500))] (Num 0)))) = Some st \<and>
         version st = 2 \<and>
         map rateLimitResetTimes (accounts st) =
           [Some \<lparr>claude = Some 2000, gemini = Some 2000\<rparr>, None] \<and>
         map refreshToken (accounts st) = [''token-1'', ''token-2'']"
    by (intro exI[of _ st] conjI)
  with h0 h1 show ?thesis by (intro conjI)
qed

text \<open>
  Claim C4, as amended. When \<^verbatim>\<open>loadAccounts\<close> returns a storage, its accounts are the
  de-duplicated account records of the file, and every account record of the file either
  is in the returned list or has a non-empty email that a returned record shares, a
  record that is at least as new: its \<^verbatim>\<open>lastUsed\<close> is greater, or equal with an
  \<^verbatim>\<open>addedAt\<close> that is greater or equal.
\<close>

theorem loadAccounts_removes_only_superseded:
  assumes "snd (loadAccounts now save_ok (Parsed d)) = Some st"
  shows "accounts st = deduplicateAccountsByEmail (stored_accounts now d) \<and>
         (\<forall>a \<in> set (stored_accounts now d).
            a \<in> set (accounts st) \<or>
            (\<exists>b \<in> set (accounts st).
               email b = email a \<and> \<not> no_email a \<and>
               (lastUsed a < lastUsed b \<or> (lastUsed a = lastUsed b \<and> addedAt a \<le> addedAt b))))"
proof -
  from loadAccounts_Some[OF assms] obtain es stored where
    "st = finishLoad es stored" "validAccounts es = stored_accounts now d" by blast
  then have "accounts st = deduplicateAccountsByEmail (stored_accounts now d)"
    by (simp add: finishLoad_simps)
  then show ?thesis using dedup_survives_or_superseded[of _ "stored_accounts now d"] by simp
qed

text \<open>
  Claim C4, the amended statement at a concrete file: of two records with one email the
  older one is absent from the returned list, and the newer one is there.
\<close>

theorem loadAccounts_removes_only_superseded_witness:
  "snd (loadAccounts 0 True (Parsed (DataV2
      [Account (account_of (Some ''a@example.com'') ''token-1'' 1 1),
       Account (account_of (Some ''a@example.com'') ''token-2'' 2 2)] NotNumber))) =
     Some \<lparr>version = 2, accounts = [account_of (Some ''a@example.com'') ''token-2'' 2 2],
           activeIndex = 0\<rparr> \<and>
   account_of (Some ''a@example.com'') ''token-1'' 1 1 \<in>
     set (stored_accounts 0 (DataV2
      [Account (account_of (Some ''a@example.com'') ''token-1'' 1 1),
       Account (account_of (Some ''a@example.com'') ''token-2'' 2 2)] NotNumber)) \<and>
   lastUsed (account_of (Some ''a@example.com'') ''token-1'' 1 1) <
   lastUsed (account_of (Some ''a@example.com'') ''token-2'' 2 2)"
proof -
  have h: "snd (loadAccounts 0 True (Parsed (DataV2
      [Account (account_of (Some ''a@example.com'') ''token-1'' 1 1),
       Account (account_of (Some ''a@example.com'') ''token-2'' 2 2)] NotNumber))) =
     Some \<lparr>version = 2, accounts = [account_of (Some ''a@example.com'') ''token-2'' 2 2],
           activeIndex = 0\<rparr>"
    by (simp add: loadAccounts_def loadAccounts_try_def finishLoad_def deduplicateAccountsByEmail_def
        kept_indices_def second_pass_def first_pass_def first_pass_step_def account_of_def
        no_email_def isNewer_def or_zero_def clampActiveIndex_def upt_rec)
  from loadAccounts_removes_only_superseded[OF h] h show ?thesis
    by (simp add: stored_accounts_def account_of_def)
qed

text \<open>
  Claim C4 as stated fails on a tie: of two records with one email, the same
  \<^verbatim>\<open>lastUsed\<close> and the same \<^verbatim>\<open>addedAt\<close>, the second is removed although the first is
  not newer.
\<close>

theorem loadAccounts_removes_counterexample:
  "snd (loadAccounts 0 True (Parsed (DataV2
      [Account (account_of (Some ''a@example.com'') ''token-1'' 5 7),
       Account (account_of (Some ''a@example.com'') ''token-2'' 5 7)] (Num 0)))) =
     Some \<lparr>version = 2, accounts = [account_of (Some ''a@example.com'') ''token-1'' 5 7],
           activeIndex = 0\<rparr> \<and>
   \<not> isNewer (account_of (Some ''a@example.com'') ''token-1'' 5 7)
              (account_of (Some ''a@example.com'') ''token-2'' 5 7) \<and>
   account_of (Some ''a@example.com'') ''token-2'' 5 7 \<noteq>
   account_of (Some ''a@example.com'') ''token-1'' 5 7"
  by (simp add: loadAccounts_def loadAccounts_try_def finishLoad_def deduplicateAccountsByEmail_def
      kept_indices_def second_pass_def first_pass_def first_pass_step_def account_of_def
      no_email_def isNewer_def or_zero_def clampActiveIndex_def upt_rec)

text \<open>
  Claim C9. \<^verbatim>\<open>deduplicateAccountsByEmail\<close> returns its own output unchanged, and its
  output is a subsequence of its input: the retained accounts keep their relative order.
\<close>

theorem dedup_idempotent_order_preserving:
  "deduplicateAccountsByEmail (deduplicateAccountsByEmail accs) = deduplicateAccountsByEmail accs \<and>
   subseq (deduplicateAccountsByEmail accs) accs"
  by (simp add: dedup_idem dedup_subseq)

text \<open>
  Claim C9 at a concrete list: the older of two accounts with one email goes, and the
  result is returned unchanged by a second pass.
\<close>

theorem dedup_idempotent_order_preserving_witness:
  "deduplicateAccountsByEmail
     [account_of (Some ''a@example.com'') ''token-1'' 1 1,
      account_of (Some ''a@example.com'') ''token-2'' 2 2,
      account_of None ''token-3'' 0 0] =
     [account_of (Some ''a@example.com'') ''token-2'' 2 2, account_of None ''token-3'' 0 0] \<and>
   deduplicateAccountsByEmail
     (deduplicateAccountsByEmail
        [account_of (Some ''a@example.com'') ''token-1'' 1 1,
         account_of (Some ''a@example.com'') ''token-2'' 2 2,
         account_of None ''token-3'' 0 0]) =
     deduplicateAccountsByEmail
        [account_of (Some ''a@example.com'') ''token-1'' 1 1,
         account_of (Some ''a@example.com'') ''token-2'' 2 2,
         account_of None ''token-3'' 0 0]"
proof -
  have "deduplicateAccountsByEmail
     [account_of (Some ''a@example.com'') ''token-1'' 1 1,
      account_of (Some ''a@example.com'') ''token-2'' 2 2,
      account_of None ''token-3'' 0 0] =
     [account_of (Some ''a@example.com'') ''token-2'' 2 2, account_of None ''token-3'' 0 0]"
    by (simp add: deduplicateAccountsByEmail_def kept_indices_def second_pass_def first_pass_def
        first_pass_step_def account_of_def no_email_def isNewer_def or_zero_def upt_rec)
  with dedup_idempotent_order_preserving
    [of "[account_of (Some ''a@example.com'') ''token-1'' 1 1,
          account_of (Some ''a@example.com'') ''token-2'' 2 2,
          account_of None ''token-3'' 0 0]"]
  show ?thesis by blast
qed

text \<open>
  Claim C10. \<^verbatim>\<open>loadAccounts\<close> returns, for every state of the file, \<^verbatim>\<open>null\<close> or a
  storage of version 2. Every exception thrown in its \<^verbatim>\<open>try\<close> block ends as the value
  \<^verbatim>\<open>null\<close>, and a normal return is handed on with its log. A missing file gives
  \<^verbatim>\<open>null\<close> and an empty log; a file that cannot be read or parsed, a content that is
  \<^verbatim>\<open>null\<close>, has no array of accounts or has an unknown version give \<^verbatim>\<open>null\<close>; a
  version-2 content gives a storage.
\<close>

theorem loadAccounts_total:
  "(case snd (loadAccounts now save_ok fstate) of None \<Rightarrow> True | Some st \<Rightarrow> version st = 2) \<and>
   (case loadAccounts_try now save_ok fstate of
      (logs, Inl x) \<Rightarrow> snd (loadAccounts now save_ok fstate) = None
    | (logs, Inr r) \<Rightarrow> loadAccounts now save_ok fstate = (logs, r)) \<and>
   loadAccounts now save_ok (ReadFails ''ENOENT'') = ([], None) \<and>
   snd (loadAccounts now save_ok (ReadFails code)) = None \<and>
   snd (loadAccounts now save_ok Unparseable) = None \<and>
   snd (loadAccounts now save_ok (Parsed DataNull)) = None \<and>
   snd (loadAccounts now save_ok (Parsed DataNoAccounts)) = None \<and>
   snd (loadAccounts now save_ok (Parsed DataOtherVersion)) = None \<and>
   snd (loadAccounts now save_ok (Parsed (DataV2 entries stored))) = Some (finishLoad entries stored)"
proof -
  have 1: "case snd (loadAccounts now save_ok fstate) of None \<Rightarrow> True | Some st \<Rightarrow> version st = 2"
  proof (cases "snd (loadAccounts now save_ok fstate)")
    case None
    then show ?thesis by simp
  next
    case (Some st)
    from loadAccounts_Some[OF Some] Some show ?thesis by (auto simp: finishLoad_simps)
  qed
  have 2: "case loadAccounts_try now save_ok fstate of
      (logs, Inl x) \<Rightarrow> snd (loadAccounts now save_ok fstate) = None
    | (logs, Inr r) \<Rightarrow> loadAccounts now save_ok fstate = (logs, r)"
    by (auto simp: loadAccounts_def split: prod.splits sum.splits exn.splits)
  have 3: "snd (loadAccounts now save_ok (ReadFails code)) = None"
    by (simp add: loadAccounts_def loadAccounts_try_def)
  show ?thesis using 1 2 3 by (simp add: loadAccounts_V2) (simp add: loadAccounts_def loadAccounts_try_def)
qed

text \<open>
  Claim C10 at concrete states of the file: a missing file gives \<^verbatim>\<open>null\<close> and no log,
  a file that cannot be read gives \<^verbatim>\<open>null\<close> and an error in the log, and a version-1
  file with a \<^verbatim>\<open>null\<close> entry gives \<^verbatim>\<open>null\<close>, the exception of the migration caught.
\<close>

theorem loadAccounts_total_witness:
  "loadAccounts 0 True (ReadFails ''ENOENT'') = ([], None) \<and>
   loadAccounts 0 True (ReadFails ''EACCES'') =
     ([Error ''[opencode-antigravity-auth] Failed to load account storage:''], None) \<and>
   loadAccounts_try 0 True (Parsed (DataV1 [JsonNull] (Num 0))) =
     ([Info ''[opencode-antigravity-auth] Migrating account storage from v1 to v2''], Inl TypeError) \<and>
   snd (loadAccounts 0 True (Parsed (DataV1 [JsonNull] (Num 0)))) = None"
proof -
  have t: "loadAccounts_try 0 True (Parsed (DataV1 [JsonNull] (Num 0))) =
     ([Info ''[opencode-antigravity-auth] Migrating account storage from v1 to v2''], Inl TypeError)"
    by (simp add: loadAccounts_try_def migrateV1ToV2_def)
  have e: "loadAccounts 0 True (ReadFails ''EACCES'') =
     ([Error ''[opencode-antigravity-auth] Failed to load account storage:''], None)"
    by (simp add: loadAccounts_def loadAccounts_try_def)
  from loadAccounts_total[of 0 True "Parsed (DataV1 [JsonNull] (Num 0))"] t
  have n: "snd (loadAccounts 0 True (Parsed (DataV1 [JsonNull] (Num 0)))) = None" by simp
  from loadAccounts_total[of 0 True "Unparseable"]
  have m: "loadAccounts 0 True (ReadFails ''ENOENT'') = ([], None)" by blast
  from m e t n show ?thesis by (intro conjI)
qed

section \<open>Schema sanitizer: lemmas\<close>

lemma map_of_present:
  "distinct (map fst fs) \<Longrightarrow>
   map_of (present fs) k = (case map_of fs k of Some (Some v) \<Rightarrow> Some v | _ \<Rightarrow> None)"
proof (induction fs)
  case Nil
  show ?case by (simp add: present_def)
next
  case (Cons f fs)
  obtain k' vo where f: "f = (k', vo)" by (cases f)
  from Cons.prems f have nk: "k' \<notin> fst ` set fs" by simp
  have ih: "map_of (present fs) k = (case map_of fs k of Some (Some v) \<Rightarrow> Some v | _ \<Rightarrow> None)"
    using Cons by simp
  have p: "present (f # fs) = (case vo of None \<Rightarrow> [] | Some v \<Rightarrow> [(k', v)]) @ present fs"
    by (cases vo) (simp_all add: present_def f)
  show ?case
  proof (cases "k = k'")
    case True
    with nk have "map_of fs k = None" by (simp add: map_of_eq_None_iff)
    with ih True f p show ?thesis by (cases vo) simp_all
  next
    case False
    with ih f p show ?thesis by (cases vo) simp_all
  qed
qed

lemma list_all_present:
  "list_all Q (present fs) =
     list_all (\<lambda>f. case snd f of None \<Rightarrow> True | Some v \<Rightarrow> Q (fst f, v)) fs"
  by (induction fs) (auto simp: present_def split: option.splits)

lemma sanitizeSchema_object:
  "sanitizeSchema (JObj kvs) =
     finishSchema
       (map_option sanitizeValue (map_of kvs ''type''))
       (map_option sanitizeProperties (map_of kvs ''properties''))
       (map_option sanitizeValue (map_of kvs ''required''))
       (map_option sanitizeValue (map_of kvs ''description''))
       (case map_of kvs ''const'' of Some v \<Rightarrow> Some (JArr [sanitizeValue v])
            | None \<Rightarrow> map_option sanitizeValue (map_of kvs ''enum''))
       (map_option (\<lambda>v. nonEmptyItems (sanitizeSchema v)) (map_of kvs ''items''))
       (map_option sanitizeValue (map_of kvs ''additionalProperties''))"
  by (simp only: sanitizeSchema.simps(1) sanitizeProperties_def[abs_def])

lemma join_Some: "(case x of None \<Rightarrow> None | Some v \<Rightarrow> Some v) = x"
  by (cases x) simp_all

lemma map_of_schemaObject:
  assumes "schemaObject ty props req desc enum items addl = JObj kvs"
  shows "map_of kvs = schemaFields ty props req desc enum items addl"
proof
  fix k
  from assms have kvs: "kvs = present [(''type'', ty), (''properties'', props), (''required'', req),
                    (''description'', desc), (''enum'', enum), (''items'', items),
                    (''additionalProperties'', addl)]"
    by (simp add: schemaObject_def)
  show "map_of kvs k = schemaFields ty props req desc enum items addl k"
    unfolding kvs by (subst map_of_present) (simp_all add: schemaFields_def join_Some)
qed

lemma sanitizeSchema_schemaObject:
  "sanitizeSchema (schemaObject ty props req desc enum items addl) =
     finishSchema (map_option sanitizeValue ty) (map_option sanitizeProperties props)
       (map_option sanitizeValue req) (map_option sanitizeValue desc)
       (map_option sanitizeValue enum)
       (map_option (\<lambda>v. nonEmptyItems (sanitizeSchema v)) items)
       (map_option sanitizeValue addl)"
proof -
  obtain kvs where kvs: "schemaObject ty props req desc enum items addl = JObj kvs"
    by (simp add: schemaObject_def)
  have m: "map_of kvs = schemaFields ty props req desc enum items addl"
    by (rule map_of_schemaObject[OF kvs])
  show ?thesis
    unfolding kvs sanitizeSchema_object m by (simp add: schemaFields_def)
qed

lemma finishSchema_no_placeholder:
  assumes "\<not> (ty = Some (JStr ''object'') \<and> (props = None \<or> props = Some (JObj [])))"
  shows "finishSchema ty props req desc enum items addl =
           schemaObject ty props req desc enum items addl"
proof -
  define ph where "ph = (ty = Some (JStr ''object'') \<and> (props = None \<or> props = Some (JObj [])))"
  have "\<not> ph" unfolding ph_def by (rule assms)
  then show ?thesis
    unfolding finishSchema_def Let_def ph_def[symmetric] by simp
qed

lemma finishSchema_placeholder:
  assumes "ty = Some (JStr ''object'') \<and> (props = None \<or> props = Some (JObj []))"
  shows "finishSchema ty props req desc enum items addl =
           schemaObject ty (Some (JObj [(''reason'', placeholderProperty)]))
             (Some (addRequired req)) desc enum items addl"
proof -
  define ph where "ph = (ty = Some (JStr ''object'') \<and> (props = None \<or> props = Some (JObj [])))"
  have "ph" unfolding ph_def by (rule assms)
  then show ?thesis
    unfolding finishSchema_def Let_def ph_def[symmetric] by simp
qed

lemma sanitizeSchema_cases:
  obtains
    (placeholder)
      "sanitizeSchema (JObj kvs) =
         schemaObject (map_option sanitizeValue (map_of kvs ''type''))
           (Some (JObj [(''reason'', placeholderProperty)]))
           (Some (addRequired (map_option sanitizeValue (map_of kvs ''required''))))
           (map_option sanitizeValue (map_of kvs ''description''))
           (case map_of kvs ''const'' of Some v \<Rightarrow> Some (JArr [sanitizeValue v])
            | None \<Rightarrow> map_option sanitizeValue (map_of kvs ''enum''))
           (map_option (\<lambda>v. nonEmptyItems (sanitizeSchema v)) (map_of kvs ''items''))
           (map_option sanitizeValue (map_of kvs ''additionalProperties''))"
      "map_option sanitizeProperties (map_of kvs ''properties'') = None \<or>
       map_option sanitizeProperties (map_of kvs ''properties'') = Some (JObj [])"
  | (plain)
      "sanitizeSchema (JObj kvs) =
         schemaObject (map_option sanitizeValue (map_of kvs ''type''))
           (map_option sanitizeProperties (map_of kvs ''properties''))
           (map_option sanitizeValue (map_of kvs ''required''))
           (map_option sanitizeValue (map_of kvs ''description''))
           (case map_of kvs ''const'' of Some v \<Rightarrow> Some (JArr [sanitizeValue v])
            | None \<Rightarrow> map_option sanitizeValue (map_of kvs ''enum''))
           (map_option (\<lambda>v. nonEmptyItems (sanitizeSchema v)) (map_of kvs ''items''))
           (map_option sanitizeValue (map_of kvs ''additionalProperties''))"
      "\<not> (map_option sanitizeValue (map_of kvs ''type'') = Some (JStr ''object'') \<and>
          (map_option sanitizeProperties (map_of kvs ''properties'') = None \<or>
           map_option sanitizeProperties (map_of kvs ''properties'') = Some (JObj [])))"
proof (cases "map_option sanitizeValue (map_of kvs ''type'') = Some (JStr ''object'') \<and>
          (map_option sanitizeProperties (map_of kvs ''properties'') = None \<or>
           map_option sanitizeProperties (map_of kvs ''properties'') = Some (JObj []))")
  case True
  show ?thesis
  proof (rule placeholder)
    show "sanitizeSchema (JObj kvs) =
         schemaObject (map_option sanitizeValue (map_of kvs ''type''))
           (Some (JObj [(''reason'', placeholderProperty)]))
           (Some (addRequired (map_option sanitizeValue (map_of kvs ''required''))))
           (map_option sanitizeValue (map_of kvs ''description''))
           (case map_of kvs ''const'' of Some v \<Rightarrow> Some (JArr [sanitizeValue v])
            | None \<Rightarrow> map_option sanitizeValue (map_of kvs ''enum''))
           (map_option (\<lambda>v. nonEmptyItems (sanitizeSchema v)) (map_of kvs ''items''))
           (map_option sanitizeValue (map_of kvs ''additionalProperties''))"
      unfolding sanitizeSchema_object by (rule finishSchema_placeholder[OF True])
    from True show "map_option sanitizeProperties (map_of kvs ''properties'') = None \<or>
       map_option sanitizeProperties (map_of kvs ''properties'') = Some (JObj [])" by (rule conjunct2)
  qed
next
  case False
  show ?thesis
  proof (rule plain)
    show "sanitizeSchema (JObj kvs) =
         schemaObject (map_option sanitizeValue (map_of kvs ''type''))
           (map_option sanitizeProperties (map_of kvs ''properties''))
           (map_option sanitizeValue (map_of kvs ''required''))
           (map_option sanitizeValue (map_of kvs ''description''))
           (case map_of kvs ''const'' of Some v \<Rightarrow> Some (JArr [sanitizeValue v])
            | None \<Rightarrow> map_option sanitizeValue (map_of kvs ''enum''))
           (map_option (\<lambda>v. nonEmptyItems (sanitizeSchema v)) (map_of kvs ''items''))
           (map_option sanitizeValue (map_of kvs ''additionalProperties''))"
      unfolding sanitizeSchema_object by (rule finishSchema_no_placeholder[OF False])
    show "\<not> (map_option sanitizeValue (map_of kvs ''type'') = Some (JStr ''object'') \<and>
          (map_option sanitizeProperties (map_of kvs ''properties'') = None \<or>
           map_option sanitizeProperties (map_of kvs ''properties'') = Some (JObj [])))"
      by (rule False)
  qed
qed

declare sanitizeSchema.simps(1) [simp del]

lemma sanitizeSchema_is_object: "\<exists>kvs. sanitizeSchema j = JObj kvs"
proof (cases j)
  case (JObj kvs)
  show ?thesis unfolding JObj
    by (cases kvs rule: sanitizeSchema_cases) (simp_all add: schemaObject_def)
qed (simp_all add: placeholderSchema_def schemaObject_def)

lemma sanitizeValue_sanitizeSchema: "sanitizeValue (sanitizeSchema j) = sanitizeSchema (sanitizeSchema j)"
proof -
  from sanitizeSchema_is_object[of j] obtain kvs where "sanitizeSchema j = JObj kvs" by blast
  then show ?thesis by simp
qed

lemma schemaObject_eq_iff:
  "schemaObject a b c d e f g = schemaObject a' b' c' d' e' f' g' \<longleftrightarrow>
     a = a' \<and> b = b' \<and> c = c' \<and> d = d' \<and> e = e' \<and> f = f' \<and> g = g'"
proof
  assume eq: "schemaObject a b c d e f g = schemaObject a' b' c' d' e' f' g'"
  obtain kvs where kvs: "schemaObject a b c d e f g = JObj kvs" by (simp add: schemaObject_def)
  from map_of_schemaObject[OF kvs] map_of_schemaObject[OF kvs[unfolded eq]]
  have "schemaFields a b c d e f g = schemaFields a' b' c' d' e' f' g'" by simp
  then have "\<And>k. schemaFields a b c d e f g k = schemaFields a' b' c' d' e' f' g' k" by simp
  from this[of "''type''"] this[of "''properties''"] this[of "''required''"]
    this[of "''description''"] this[of "''enum''"] this[of "''items''"]
    this[of "''additionalProperties''"]
  show "a = a' \<and> b = b' \<and> c = c' \<and> d = d' \<and> e = e' \<and> f = f' \<and> g = g'"
    by (simp add: schemaFields_def)
qed simp

lemma schemaObject_empty_iff:
  "schemaObject a b c d e f g = JObj [] \<longleftrightarrow>
     a = None \<and> b = None \<and> c = None \<and> d = None \<and> e = None \<and> f = None \<and> g = None"
proof -
  have "JObj [] = schemaObject None None None None None None None"
    by (simp add: schemaObject_def present_def)
  then show ?thesis by (simp add: schemaObject_eq_iff)
qed

lemma sanitize_stringSchema: "sanitizeSchema stringSchema = stringSchema"
  unfolding stringSchema_def sanitizeSchema_schemaObject
  by (simp add: finishSchema_no_placeholder)

lemma sanitize_placeholderProperty: "sanitizeSchema placeholderProperty = placeholderProperty"
  unfolding placeholderProperty_def sanitizeSchema_schemaObject
  by (simp add: finishSchema_no_placeholder)

lemma sanitizeProperties_reason:
  "sanitizeProperties (JObj [(''reason'', placeholderProperty)]) = JObj [(''reason'', placeholderProperty)]"
  by (simp add: sanitizeProperties_def sanitize_placeholderProperty)

lemma sanitize_placeholderSchema: "sanitizeSchema placeholderSchema = placeholderSchema"
  unfolding placeholderSchema_def sanitizeSchema_schemaObject
  by (simp add: finishSchema_no_placeholder sanitizeProperties_reason)

lemma nonEmptyItems_idem:
  assumes "sanitizeSchema (sanitizeSchema v) = sanitizeSchema v"
  shows "nonEmptyItems (sanitizeSchema (nonEmptyItems (sanitizeSchema v))) = nonEmptyItems (sanitizeSchema v)"
proof (cases "sanitizeSchema v = JObj []")
  case True
  have "stringSchema \<noteq> JObj []" by (simp add: stringSchema_def schemaObject_empty_iff)
  with True show ?thesis by (simp add: nonEmptyItems_def sanitize_stringSchema)
next
  case False
  with assms show ?thesis by (simp add: nonEmptyItems_def)
qed

lemma sanitizeValue_addRequired:
  assumes "map_option sanitizeValue req = req"
  shows "sanitizeValue (addRequired req) = addRequired req"
proof (cases req)
  case None
  then show ?thesis by (simp add: addRequired_def)
next
  case (Some v)
  show ?thesis
  proof (cases v)
    case (JArr names)
    with assms Some have "map sanitizeValue names = names" by simp
    with Some JArr show ?thesis by (simp add: addRequired_def)
  qed (simp_all add: Some addRequired_def)
qed

lemma sanitize_idem:
  shows sanitizeSchema_idem: "sanitizeSchema (sanitizeSchema s) = sanitizeSchema s"
    and sanitizeValue_idem: "sanitizeValue (sanitizeValue v) = sanitizeValue v"
proof (induction s and v rule: sanitizeSchema_sanitizeValue.induct)
  case (1 kvs)
  define look where "look = map_of kvs"
  define T1 where "T1 = map_option sanitizeValue (look ''type'')"
  define P1 where "P1 = map_option sanitizeProperties (look ''properties'')"
  define R1 where "R1 = map_option sanitizeValue (look ''required'')"
  define D1 where "D1 = map_option sanitizeValue (look ''description'')"
  define E where "E = (case look ''const'' of Some v \<Rightarrow> Some (JArr [sanitizeValue v])
                       | None \<Rightarrow> map_option sanitizeValue (look ''enum''))"
  define I1 where "I1 = map_option (\<lambda>v. nonEmptyItems (sanitizeSchema v)) (look ''items'')"
  define A1 where "A1 = map_option sanitizeValue (look ''additionalProperties'')"
  have T: "map_option sanitizeValue T1 = T1"
    using "1.IH"(1) by (cases "look ''type''") (simp_all add: T1_def look_def)
  have R: "map_option sanitizeValue R1 = R1"
    using "1.IH"(8) by (cases "look ''required''") (simp_all add: R1_def look_def)
  have D: "map_option sanitizeValue D1 = D1"
    using "1.IH"(9) by (cases "look ''description''") (simp_all add: D1_def look_def)
  have A: "map_option sanitizeValue A1 = A1"
    using "1.IH"(13) by (cases "look ''additionalProperties''") (simp_all add: A1_def look_def)
  have En: "map_option sanitizeValue E = E"
  proof (cases "look ''const''")
    case None
    then show ?thesis
      using "1.IH"(10) by (cases "look ''enum''") (simp_all add: E_def look_def)
  next
    case (Some v)
    then show ?thesis using "1.IH"(11)[of v] by (simp add: E_def look_def)
  qed
  have I: "map_option (\<lambda>v. nonEmptyItems (sanitizeSchema v)) I1 = I1"
  proof (cases "look ''items''")
    case None
    then show ?thesis by (simp add: I1_def)
  next
    case (Some v)
    then have "sanitizeSchema (sanitizeSchema v) = sanitizeSchema v"
      using "1.IH"(12)[of v] by (simp add: look_def)
    with Some show ?thesis by (simp add: I1_def nonEmptyItems_idem)
  qed
  have P: "map_option sanitizeProperties P1 = P1"
  proof (cases "look ''properties''")
    case None
    then show ?thesis by (simp add: P1_def)
  next
    case (Some v)
    have "sanitizeProperties (sanitizeProperties v) = sanitizeProperties v"
    proof (cases v)
      case (JObj ps)
      have "\<And>p. p \<in> set ps \<Longrightarrow> sanitizeSchema (sanitizeSchema (snd p)) = sanitizeSchema (snd p)"
        using "1.IH"(7)[of v ps] Some JObj by (simp add: look_def)
      then show ?thesis by (simp add: JObj sanitizeProperties_def)
    next
      case (JArr xs)
      have "sanitizeValue (sanitizeValue (JArr xs)) = sanitizeValue (JArr xs)"
        using "1.IH"(6)[of v xs] Some JArr by (simp add: look_def)
      then show ?thesis by (simp add: JArr sanitizeProperties_def)
    qed (simp_all add: sanitizeProperties_def)
    with Some show ?thesis by (simp add: P1_def)
  qed
  show ?case
  proof (cases kvs rule: sanitizeSchema_cases)
    case placeholder
    have out: "sanitizeSchema (JObj kvs) =
        schemaObject T1 (Some (JObj [(''reason'', placeholderProperty)])) (Some (addRequired R1)) D1 E I1 A1"
      unfolding placeholder(1) T1_def R1_def D1_def E_def I1_def A1_def look_def ..
    have nph: "\<not> (T1 = Some (JStr ''object'') \<and>
                 (Some (JObj [(''reason'', placeholderProperty)]) = None \<or>
                  Some (JObj [(''reason'', placeholderProperty)]) = Some (JObj [])))"
      by simp
    show ?thesis
      unfolding out sanitizeSchema_schemaObject
      by (simp only: option.map T D A I En sanitizeProperties_reason sanitizeValue_addRequired[OF R]
          finishSchema_no_placeholder[OF nph])
  next
    case plain
    have out: "sanitizeSchema (JObj kvs) = schemaObject T1 P1 R1 D1 E I1 A1"
      unfolding plain(1) T1_def P1_def R1_def D1_def E_def I1_def A1_def look_def ..
    have nph: "\<not> (T1 = Some (JStr ''object'') \<and> (P1 = None \<or> P1 = Some (JObj [])))"
      using plain(2) unfolding T1_def P1_def look_def .
    show ?thesis
      unfolding out sanitizeSchema_schemaObject
      by (simp only: T P R D A I En finishSchema_no_placeholder[OF nph])
  qed
next
  case (7 kvs)
  then show ?case by (simp add: sanitizeValue_sanitizeSchema)
next
  case (8 xs)
  then show ?case by simp
qed (simp_all add: sanitize_placeholderSchema)










lemma keyFree_object:
  "keyFree k (JObj kvs) =
     (map_of kvs k = None \<and>
      list_all
        (\<lambda>m. if fst m = ''properties'' then keyFreeProperties k (snd m)
             else keyFree k (snd m))
        kvs)"
  unfolding keyFreeProperties_def by (rule keyFree.simps(1))

lemma keyFree_schemaObject:
  assumes "k \<notin> set allowlist"
    and "\<And>v. ty = Some v \<Longrightarrow> keyFree k v"
    and "\<And>v. props = Some v \<Longrightarrow> keyFreeProperties k v"
    and "\<And>v. req = Some v \<Longrightarrow> keyFree k v"
    and "\<And>v. desc = Some v \<Longrightarrow> keyFree k v"
    and "\<And>v. enum = Some v \<Longrightarrow> keyFree k v"
    and "\<And>v. items = Some v \<Longrightarrow> keyFree k v"
    and "\<And>v. addl = Some v \<Longrightarrow> keyFree k v"
  shows "keyFree k (schemaObject ty props req desc enum items addl)"
proof -
  define kvs where "kvs = present [(''type'', ty), (''properties'', props), (''required'', req),
                    (''description'', desc), (''enum'', enum), (''items'', items),
                    (''additionalProperties'', addl)]"
  have kvs: "schemaObject ty props req desc enum items addl = JObj kvs"
    by (simp add: schemaObject_def kvs_def)
  from assms(1) have "map_of kvs k = None"
    by (simp add: map_of_schemaObject[OF kvs] schemaFields_def allowlist_def)
  moreover have "list_all
        (\<lambda>m. if fst m = ''properties'' then keyFreeProperties k (snd m)
             else keyFree k (snd m)) kvs"
    unfolding kvs_def by (simp add: list_all_present assms(2-) split: option.splits)
  ultimately show ?thesis
    unfolding kvs keyFree_object by (rule conjI)
qed

lemma keyFree_addRequired:
  assumes "\<And>v. req = Some v \<Longrightarrow> keyFree k v"
  shows "keyFree k (addRequired req)"
proof (cases req)
  case None
  then show ?thesis by (simp add: addRequired_def)
next
  case (Some v)
  with assms have "keyFree k v" by simp
  with Some show ?thesis by (cases v) (simp_all add: addRequired_def)
qed

lemma keyFree_placeholderProperty: "k \<notin> set allowlist \<Longrightarrow> keyFree k placeholderProperty"
  unfolding placeholderProperty_def by (rule keyFree_schemaObject) auto

lemma keyFree_stringSchema: "k \<notin> set allowlist \<Longrightarrow> keyFree k stringSchema"
  unfolding stringSchema_def by (rule keyFree_schemaObject) auto

lemma keyFree_placeholderSchema: "k \<notin> set allowlist \<Longrightarrow> keyFree k placeholderSchema"
  unfolding placeholderSchema_def
  by (rule keyFree_schemaObject) (auto simp: keyFreeProperties_def keyFree_placeholderProperty)

lemma keyFree_sanitize:
  assumes k: "k \<notin> set allowlist"
  shows keyFree_sanitizeSchema: "keyFree k (sanitizeSchema s)"
    and keyFree_sanitizeValue: "keyFree k (sanitizeValue v)"
proof (induction s and v rule: sanitizeSchema_sanitizeValue.induct)
  case (1 kvs)
  have T: "keyFree k w" if "map_option sanitizeValue (map_of kvs ''type'') = Some w" for w
    using that "1.IH"(1) by auto
  have R: "keyFree k w" if "map_option sanitizeValue (map_of kvs ''required'') = Some w" for w
    using that "1.IH"(8) by auto
  have D: "keyFree k w" if "map_option sanitizeValue (map_of kvs ''description'') = Some w" for w
    using that "1.IH"(9) by auto
  have A: "keyFree k w" if "map_option sanitizeValue (map_of kvs ''additionalProperties'') = Some w" for w
    using that "1.IH"(13) by auto
  have En: "keyFree k w"
    if "(case map_of kvs ''const'' of Some v \<Rightarrow> Some (JArr [sanitizeValue v])
         | None \<Rightarrow> map_option sanitizeValue (map_of kvs ''enum'')) = Some w" for w
    using that "1.IH"(10,11) by (auto split: option.splits)
  have I: "keyFree k w"
    if "map_option (\<lambda>v. nonEmptyItems (sanitizeSchema v)) (map_of kvs ''items'') = Some w" for w
  proof -
    from that obtain t where t: "map_of kvs ''items'' = Some t" and w: "w = nonEmptyItems (sanitizeSchema t)"
      by auto
    from "1.IH"(12)[OF t] show ?thesis
      by (simp add: w nonEmptyItems_def keyFree_stringSchema[OF k])
  qed
  have P: "keyFreeProperties k w"
    if "map_option sanitizeProperties (map_of kvs ''properties'') = Some w" for w
  proof -
    from that obtain pv where pv: "map_of kvs ''properties'' = Some pv" and w: "w = sanitizeProperties pv"
      by auto
    show ?thesis
    proof (cases pv)
      case (JObj ps)
      have "\<And>p. p \<in> set ps \<Longrightarrow> keyFree k (sanitizeSchema (snd p))"
        using "1.IH"(7)[OF pv JObj] .
      then show ?thesis
        by (simp add: w JObj sanitizeProperties_def keyFreeProperties_def list_all_iff)
    next
      case (JArr xs)
      from "1.IH"(6)[OF pv JArr] show ?thesis
        by (simp add: w JArr sanitizeProperties_def keyFreeProperties_def)
    qed (simp_all add: w sanitizeProperties_def keyFreeProperties_def)
  qed
  show ?case
  proof (cases kvs rule: sanitizeSchema_cases)
    case placeholder
    show ?thesis
      unfolding placeholder(1)
    proof (rule keyFree_schemaObject[OF k])
      fix w assume "Some (JObj [(''reason'', placeholderProperty)]) = Some w"
      then show "keyFreeProperties k w"
        by (auto simp: keyFreeProperties_def keyFree_placeholderProperty[OF k])
    next
      fix w assume "Some (addRequired (map_option sanitizeValue (map_of kvs ''required''))) = Some w"
      then show "keyFree k w" using keyFree_addRequired[of _ k, OF R] by auto
    qed (fact T D En I A)+
  next
    case plain
    show ?thesis
      unfolding plain(1) by (rule keyFree_schemaObject[OF k]) (fact T P R D En I A)+
  qed
next
  case (8 xs)
  then show ?case by (simp add: list_all_iff)
qed (simp_all add: keyFree_placeholderSchema[OF k])




lemma sanitizeNameChar_idem: "sanitizeNameChar (sanitizeNameChar c) = sanitizeNameChar c"
  by (simp add: sanitizeNameChar_def validNameChar_def)

lemma sanitizeToolName_idem: "sanitizeToolName (sanitizeToolName name) = sanitizeToolName name"
  by (simp add: sanitizeToolName_def take_map o_def sanitizeNameChar_idem)

section \<open>Schema sanitizer: the claims\<close>

text \<open>
  Claim C5. Sanitizing is idempotent: a sanitized schema is sanitized to itself, and a
  sanitized tool name is sanitized to itself.
\<close>

theorem sanitize_idempotent:
  "sanitizeSchema (sanitizeSchema s) = sanitizeSchema s \<and>
   sanitizeToolName (sanitizeToolName name) = sanitizeToolName name"
  by (simp add: sanitizeSchema_idem sanitizeToolName_idem)

text \<open>
  Claim C5 at a concrete schema and a concrete name: an object schema without properties
  gets the placeholder, and the slash of the name becomes an underscore; sanitizing the
  results changes nothing.
\<close>

theorem sanitize_idempotent_witness:
  "sanitizeSchema (JObj [(''type'', JStr ''object''), (''$schema'', JStr ''x'')]) =
     JObj [(''type'', JStr ''object''),
           (''properties'',
            JObj [(''reason'',
                   JObj [(''type'', JStr ''string''),
                         (''description'', JStr ''Brief explanation of why you are calling this tool'')])]),
           (''required'', JArr [JStr ''reason''])] \<and>
   sanitizeSchema (sanitizeSchema (JObj [(''type'', JStr ''object''), (''$schema'', JStr ''x'')])) =
     sanitizeSchema (JObj [(''type'', JStr ''object''), (''$schema'', JStr ''x'')]) \<and>
   sanitizeToolName ''fs/read'' = ''fs_read'' \<and>
   sanitizeToolName (sanitizeToolName ''fs/read'') = sanitizeToolName ''fs/read''"
  using sanitize_idempotent
    [of "JObj [(''type'', JStr ''object''), (''$schema'', JStr ''x'')]" "''fs/read''"]
  by (simp add: sanitizeSchema.simps(1) finishSchema_def schemaObject_def present_def
      placeholderProperty_def addRequired_def sanitizeToolName_def sanitizeNameChar_def
      validNameChar_def)

text \<open>
  The conversion that the documentation of the repository shows: the constant under
  \<^verbatim>\<open>type\<close> becomes a one-element enum, so the walk reaches the values of the keys it
  keeps.
\<close>

lemma sanitizeSchema_documented_example:
  "sanitizeSchema (JObj [(''type'', JObj [(''const'', JStr ''email'')])]) =
     JObj [(''type'', JObj [(''enum'', JArr [JStr ''email''])])]"
  by (simp add: sanitizeSchema.simps(1) finishSchema_def schemaObject_def present_def)

text \<open>
  Where the rewriting of constants ends. A \<^verbatim>\<open>const\<close> below a key that the allowlist
  drops (here \<^verbatim>\<open>anyOf\<close>) goes with that key, by rule 1, and nothing stands for it in
  the output. A constant that is an object is walked like every value that is kept, so a
  \<^verbatim>\<open>const\<close> inside it is rewritten too: the output has no \<^verbatim>\<open>const\<close> key, and the
  enum holds the constant as sanitized.
\<close>

lemma sanitizeSchema_constant_limits:
  "sanitizeSchema (JObj [(''anyOf'', JArr [JObj [(''const'', JStr ''a'')]])]) = JObj [] \<and>
   sanitizeSchema (JObj [(''const'', JObj [(''const'', JNum 1)])]) =
     JObj [(''enum'', JArr [JObj [(''enum'', JArr [JNum 1])]])]"
  by (simp add: sanitizeSchema.simps(1) finishSchema_def schemaObject_def present_def)



section \<open>Signature cache: lemmas\<close>

lemma oldest_None: "oldest es = None \<longleftrightarrow> es = []"
  by (cases es) (auto split: option.splits)

lemma oldest_in: "oldest es = Some old \<Longrightarrow> old \<in> set es"
  by (induction es arbitrary: old) (auto split: option.splits if_splits)

lemma oldest_least: "oldest es = Some old \<Longrightarrow> e \<in> set es \<Longrightarrow> expiresAt old \<le> expiresAt e"
proof (induction es arbitrary: old)
  case Nil
  then show ?case by simp
next
  case (Cons x xs)
  show ?case
  proof (cases "oldest xs")
    case None
    then have "xs = []" by (simp add: oldest_None)
    with Cons.prems None show ?thesis by simp
  next
    case (Some old')
    from Cons.prems(2) consider "e = x" | "e \<in> set xs" by auto
    then show ?thesis
    proof cases
      case 1
      with Cons.prems(1) Some show ?thesis by (auto split: if_splits)
    next
      case 2
      from Cons.IH[OF Some 2] Cons.prems(1) Some show ?thesis by (auto split: if_splits)
    qed
  qed
qed

lemma filter_remove1_other:
  "\<not> P old \<Longrightarrow> filter P (remove1 old es) = filter P es"
  by (induction es) auto

lemma length_filter_remove1:
  "old \<in> set es \<Longrightarrow> P old \<Longrightarrow> Suc (length (filter P (remove1 old es))) = length (filter P es)"
  by (induction es) auto

lemma find_append_new:
  "\<forall>e \<in> set es. entryKey e \<noteq> k \<Longrightarrow>
   find (\<lambda>e. entryKey e = k) (es @ [n]) = (if entryKey n = k then Some n else None)"
  by (induction es) auto

lemma set_evictOldest: "set (evictOldest s es) \<subseteq> set es"
  by (auto simp: evictOldest_def split: option.splits dest: set_remove1_subset[THEN subsetD])

lemma cache_get_set:
  "cache_get now k (cache_set t k v cache) =
     (if now \<le> t + SIGNATURE_TTL_MS then Some v else None)"
proof -
  define others where "others = cache_delete k cache"
  define kept where "kept = (if MAX_ENTRIES_PER_SESSION \<le> length (filter (ofSession (sessionId k)) others)
                  then evictOldest (sessionId k) others else others)"
  have "set kept \<subseteq> set others" by (auto simp: kept_def dest: set_evictOldest[THEN subsetD])
  then have "\<forall>e \<in> set kept. entryKey e \<noteq> k" by (auto simp: others_def cache_delete_def)
  then have "find (\<lambda>e. entryKey e = k)
               (kept @ [\<lparr>entryKey = k, entryValue = v, expiresAt = t + SIGNATURE_TTL_MS\<rparr>]) =
             Some \<lparr>entryKey = k, entryValue = v, expiresAt = t + SIGNATURE_TTL_MS\<rparr>"
    by (simp add: find_append_new)
  then show ?thesis
    by (simp add: cache_get_def cache_set_def Let_def others_def[symmetric] kept_def[symmetric])
qed

lemma cache_get_live:
  "cache_get now k cache = Some v \<Longrightarrow>
   \<exists>e \<in> set cache. entryKey e = k \<and> entryValue e = v \<and> now \<le> expiresAt e"
  by (auto simp: cache_get_def find_Some_iff split: option.splits if_splits)

lemma cache_set_entries:
  "set (cache_set t k v cache) \<subseteq>
     insert \<lparr>entryKey = k, entryValue = v, expiresAt = t + SIGNATURE_TTL_MS\<rparr> (set cache)"
  by (auto simp: cache_set_def Let_def cache_delete_def dest: set_evictOldest[THEN subsetD] split: if_splits)

lemma cache_set_evicts:
  assumes new: "\<forall>e \<in> set cache. entryKey e \<noteq> k"
    and full: "length (filter (ofSession (sessionId k)) cache) = MAX_ENTRIES_PER_SESSION"
  shows "\<exists>old. old \<in> set cache \<and> ofSession (sessionId k) old \<and>
           (\<forall>e \<in> set cache. ofSession (sessionId k) e \<longrightarrow> expiresAt old \<le> expiresAt e) \<and>
           cache_set now k v cache =
             remove1 old cache @ [\<lparr>entryKey = k, entryValue = v, expiresAt = now + SIGNATURE_TTL_MS\<rparr>] \<and>
           filter (\<lambda>e. \<not> ofSession (sessionId k) e) (cache_set now k v cache) =
             filter (\<lambda>e. \<not> ofSession (sessionId k) e) cache \<and>
           length (filter (ofSession (sessionId k)) (cache_set now k v cache)) = MAX_ENTRIES_PER_SESSION \<and>
           length (cache_set now k v cache) = length cache"
proof -
  let ?s = "sessionId k"
  let ?n = "\<lparr>entryKey = k, entryValue = v, expiresAt = now + SIGNATURE_TTL_MS\<rparr>"
  have del: "cache_delete k cache = cache" using new by (simp add: cache_delete_def filter_id_conv)
  have "filter (ofSession ?s) cache \<noteq> []" using full by (auto simp: MAX_ENTRIES_PER_SESSION_def)
  then obtain old where old: "oldest (filter (ofSession ?s) cache) = Some old"
    by (cases "oldest (filter (ofSession ?s) cache)") (auto simp: oldest_None)
  from oldest_in[OF old] have oin: "old \<in> set cache" and os: "ofSession ?s old" by auto
  have least: "\<forall>e \<in> set cache. ofSession ?s e \<longrightarrow> expiresAt old \<le> expiresAt e"
    using oldest_least[OF old] by auto
  have eq: "cache_set now k v cache = remove1 old cache @ [?n]"
    using full old by (simp add: cache_set_def Let_def del evictOldest_def)
  have ns: "ofSession ?s ?n" by (simp add: ofSession_def)
  have others: "filter (\<lambda>e. \<not> ofSession ?s e) (cache_set now k v cache) =
             filter (\<lambda>e. \<not> ofSession ?s e) cache"
    unfolding eq using os ns by (simp add: filter_remove1_other)
  have len: "length (filter (ofSession ?s) (cache_set now k v cache)) = MAX_ENTRIES_PER_SESSION"
    unfolding eq using length_filter_remove1[of old cache "ofSession (sessionId k)", OF oin os] ns full
    by simp
  have "length (cache_set now k v cache) = length cache"
    unfolding eq using oin by (simp add: length_remove1) (cases cache, auto)
  with oin os least eq others len show ?thesis by blast
qed

section \<open>Signature cache: the claims\<close>

text \<open>
  Claim C7. \<^verbatim>\<open>get\<close> returns a value only from an entry that has not expired, an entry
  set at time \<open>t\<close> expires at \<open>t\<close> plus one hour and is returned by \<^verbatim>\<open>get\<close> exactly
  until then, and \<^verbatim>\<open>set\<close> changes no other entry's expiry. Inserting a new key into a
  session that holds 100 entries removes exactly one entry, one of that session that
  expires no later than any other of that session, and appends the new one: the entries
  of the other sessions are the same, and the session still holds 100.
\<close>

theorem signature_cache_policy:
  "(cache_get now k cache = Some v \<longrightarrow>
      (\<exists>e \<in> set cache. entryKey e = k \<and> entryValue e = v \<and> now \<le> expiresAt e)) \<and>
   cache_get now k (cache_set t k v cache) = (if now \<le> t + 3600000 then Some v else None) \<and>
   set (cache_set t k v cache) \<subseteq>
     insert \<lparr>entryKey = k, entryValue = v, expiresAt = t + 3600000\<rparr> (set cache) \<and>
   (k \<notin> entryKey ` set cache \<and> length (filter (ofSession (sessionId k)) cache) = 100 \<longrightarrow>
      (\<exists>old. old \<in> set cache \<and> ofSession (sessionId k) old \<and>
         (\<forall>e \<in> set cache. ofSession (sessionId k) e \<longrightarrow> expiresAt old \<le> expiresAt e) \<and>
         cache_set t k v cache =
           remove1 old cache @ [\<lparr>entryKey = k, entryValue = v, expiresAt = t + 3600000\<rparr>] \<and>
         filter (\<lambda>e. \<not> ofSession (sessionId k) e) (cache_set t k v cache) =
           filter (\<lambda>e. \<not> ofSession (sessionId k) e) cache \<and>
         length (filter (ofSession (sessionId k)) (cache_set t k v cache)) = 100 \<and>
         length (cache_set t k v cache) = length cache))"
proof -
  have a: "cache_get now k cache = Some v \<longrightarrow>
      (\<exists>e \<in> set cache. entryKey e = k \<and> entryValue e = v \<and> now \<le> expiresAt e)"
    using cache_get_live by blast
  have b: "cache_get now k (cache_set t k v cache) = (if now \<le> t + 3600000 then Some v else None)"
    using cache_get_set[of now k t v cache] by (simp add: SIGNATURE_TTL_MS_def)
  have c: "set (cache_set t k v cache) \<subseteq>
     insert \<lparr>entryKey = k, entryValue = v, expiresAt = t + 3600000\<rparr> (set cache)"
    using cache_set_entries[of t k v cache] by (simp add: SIGNATURE_TTL_MS_def)
  have d: "k \<notin> entryKey ` set cache \<and> length (filter (ofSession (sessionId k)) cache) = 100 \<longrightarrow>
      (\<exists>old. old \<in> set cache \<and> ofSession (sessionId k) old \<and>
         (\<forall>e \<in> set cache. ofSession (sessionId k) e \<longrightarrow> expiresAt old \<le> expiresAt e) \<and>
         cache_set t k v cache =
           remove1 old cache @ [\<lparr>entryKey = k, entryValue = v, expiresAt = t + 3600000\<rparr>] \<and>
         filter (\<lambda>e. \<not> ofSession (sessionId k) e) (cache_set t k v cache) =
           filter (\<lambda>e. \<not> ofSession (sessionId k) e) cache \<and>
         length (filter (ofSession (sessionId k)) (cache_set t k v cache)) = 100 \<and>
         length (cache_set t k v cache) = length cache)"
  proof
    assume h: "k \<notin> entryKey ` set cache \<and> length (filter (ofSession (sessionId k)) cache) = 100"
    then have new: "\<forall>e \<in> set cache. entryKey e \<noteq> k" by auto
    from h have full: "length (filter (ofSession (sessionId k)) cache) = MAX_ENTRIES_PER_SESSION"
      by (simp add: MAX_ENTRIES_PER_SESSION_def)
    from cache_set_evicts[OF new full, of t v]
    show "\<exists>old. old \<in> set cache \<and> ofSession (sessionId k) old \<and>
         (\<forall>e \<in> set cache. ofSession (sessionId k) e \<longrightarrow> expiresAt old \<le> expiresAt e) \<and>
         cache_set t k v cache =
           remove1 old cache @ [\<lparr>entryKey = k, entryValue = v, expiresAt = t + 3600000\<rparr>] \<and>
         filter (\<lambda>e. \<not> ofSession (sessionId k) e) (cache_set t k v cache) =
           filter (\<lambda>e. \<not> ofSession (sessionId k) e) cache \<and>
         length (filter (ofSession (sessionId k)) (cache_set t k v cache)) = 100 \<and>
         length (cache_set t k v cache) = length cache"
      by (simp add: SIGNATURE_TTL_MS_def MAX_ENTRIES_PER_SESSION_def)
  qed
  from a b c d show ?thesis by (intro conjI)
qed

text \<open>
  Claim C7 at a concrete cache: 100 entries of session \<^verbatim>\<open>s1\<close> and one of session
  \<^verbatim>\<open>s2\<close>. A new key of session \<^verbatim>\<open>s1\<close>, set at time 5000, evicts one entry of
  \<^verbatim>\<open>s1\<close>, leaves the entry of \<^verbatim>\<open>s2\<close>, and is returned one hour later but not one
  millisecond after that.
\<close>

theorem signature_cache_policy_witness:
  "\<lparr>sessionId = ''s1'', modelId = ''gemini'', projectKey = ''p'', conversationKey = ''new''\<rparr> \<notin>
     entryKey ` set (example_entry ''s2'' 0 # map (example_entry ''s1'') [0..<100]) \<and>
   length (filter (ofSession ''s1'') (example_entry ''s2'' 0 # map (example_entry ''s1'') [0..<100])) = 100 \<and>
   length (cache_set 5000
             \<lparr>sessionId = ''s1'', modelId = ''gemini'', projectKey = ''p'', conversationKey = ''new''\<rparr>
             \<lparr>thinkingText = ''t'', signature = ''s''\<rparr>
             (example_entry ''s2'' 0 # map (example_entry ''s1'') [0..<100])) = 101 \<and>
   filter (\<lambda>e. \<not> ofSession ''s1'' e)
     (cache_set 5000
        \<lparr>sessionId = ''s1'', modelId = ''gemini'', projectKey = ''p'', conversationKey = ''new''\<rparr>
        \<lparr>thinkingText = ''t'', signature = ''s''\<rparr>
        (example_entry ''s2'' 0 # map (example_entry ''s1'') [0..<100])) = [example_entry ''s2'' 0] \<and>
   cache_get 3605000
     \<lparr>sessionId = ''s1'', modelId = ''gemini'', projectKey = ''p'', conversationKey = ''new''\<rparr>
     (cache_set 5000
        \<lparr>sessionId = ''s1'', modelId = ''gemini'', projectKey = ''p'', conversationKey = ''new''\<rparr>
        \<lparr>thinkingText = ''t'', signature = ''s''\<rparr>
        (example_entry ''s2'' 0 # map (example_entry ''s1'') [0..<100])) =
     Some \<lparr>thinkingText = ''t'', signature = ''s''\<rparr> \<and>
   cache_get 3605001
     \<lparr>sessionId = ''s1'', modelId = ''gemini'', projectKey = ''p'', conversationKey = ''new''\<rparr>
     (cache_set 5000
        \<lparr>sessionId = ''s1'', modelId = ''gemini'', projectKey = ''p'', conversationKey = ''new''\<rparr>
        \<lparr>thinkingText = ''t'', signature = ''s''\<rparr>
        (example_entry ''s2'' 0 # map (example_entry ''s1'') [0..<100])) = None"
proof -
  let ?k = "\<lparr>sessionId = ''s1'', modelId = ''gemini'', projectKey = ''p'', conversationKey = ''new''\<rparr>"
  let ?v = "\<lparr>thinkingText = ''t'', signature = ''s''\<rparr>"
  let ?c = "example_entry ''s2'' 0 # map (example_entry ''s1'') [0..<100]"
  have s1: "filter (ofSession ''s1'') (map (example_entry ''s1'') [0..<100]) =
            map (example_entry ''s1'') [0..<100]"
    by (simp add: filter_id_conv ofSession_def example_entry_def example_key_def)
  have s1': "filter (\<lambda>e. \<not> ofSession ''s1'' e) (map (example_entry ''s1'') [0..<100]) = []"
    by (simp add: filter_empty_conv ofSession_def example_entry_def example_key_def)
  have h1: "?k \<notin> entryKey ` set ?c"
    by (auto simp: example_entry_def example_key_def)
  have h2: "length (filter (ofSession ''s1'') ?c) = 100"
    using s1 by (simp add: ofSession_def example_entry_def example_key_def)
  have h2': "length (filter (ofSession (sessionId ?k)) ?c) = 100"
    using h2 by simp
  have other: "filter (\<lambda>e. \<not> ofSession ''s1'' e) ?c = [example_entry ''s2'' 0]"
    using s1' by (simp add: ofSession_def example_entry_def example_key_def)
  from signature_cache_policy[of 3605000 ?k ?c ?v 5000] h1 h2'
  have ev: "filter (\<lambda>e. \<not> ofSession (sessionId ?k) e) (cache_set 5000 ?k ?v ?c) =
              filter (\<lambda>e. \<not> ofSession (sessionId ?k) e) ?c"
    and len: "length (cache_set 5000 ?k ?v ?c) = length ?c"
    and g1: "cache_get 3605000 ?k (cache_set 5000 ?k ?v ?c) =
              (if (3605000::int) \<le> 5000 + 3600000 then Some ?v else None)"
    by blast+
  from signature_cache_policy[of 3605001 ?k ?c ?v 5000]
  have g2: "cache_get 3605001 ?k (cache_set 5000 ?k ?v ?c) =
              (if (3605001::int) \<le> 5000 + 3600000 then Some ?v else None)"
    by blast
  from ev other have ev': "filter (\<lambda>e. \<not> ofSession ''s1'' e) (cache_set 5000 ?k ?v ?c) =
      [example_entry ''s2'' 0]" by simp
  from len have len': "length (cache_set 5000 ?k ?v ?c) = 101" by simp
  from g1 have g1': "cache_get 3605000 ?k (cache_set 5000 ?k ?v ?c) = Some ?v" by simp
  from g2 have g2': "cache_get 3605001 ?k (cache_set 5000 ?k ?v ?c) = None" by simp
  from h1 h2 len' ev' g1' g2' show ?thesis by (intro conjI)
qed

section \<open>Thinking blocks: lemmas\<close>

declare removeTrailingThinkingBlocks.simps [simp del]

lemma hasValidSignature_iff:
  "hasValidSignature b \<longleftrightarrow> (\<exists>txt sig. b = Thinking txt (Some sig) \<and> 50 \<le> length sig)"
  by (auto simp: hasValidSignature_def split: block.splits option.splits)

lemma remove_snoc_invalid:
  "isThinking b \<Longrightarrow> \<not> hasValidSignature b \<Longrightarrow>
   removeTrailingThinkingBlocks (bs @ [b]) = removeTrailingThinkingBlocks bs"
  by (subst removeTrailingThinkingBlocks.simps) simp

lemma remove_snoc_kept:
  "\<not> isThinking b \<or> hasValidSignature b \<Longrightarrow> removeTrailingThinkingBlocks (bs @ [b]) = bs @ [b]"
  by (subst removeTrailingThinkingBlocks.simps) auto

lemma remove_Nil: "removeTrailingThinkingBlocks [] = []"
  by (subst removeTrailingThinkingBlocks.simps) simp

lemma remove_keeps_others:
  "filter (\<lambda>b. \<not> isThinking b) (removeTrailingThinkingBlocks bs) = filter (\<lambda>b. \<not> isThinking b) bs"
proof (induction bs rule: rev_induct)
  case Nil
  show ?case by (simp add: remove_Nil)
next
  case (snoc b bs)
  show ?case
  proof (cases "isThinking b \<and> \<not> hasValidSignature b")
    case True
    with snoc show ?thesis by (simp add: remove_snoc_invalid)
  next
    case False
    then show ?thesis by (simp add: remove_snoc_kept)
  qed
qed

lemma remove_last_ok:
  "removeTrailingThinkingBlocks bs \<noteq> [] \<Longrightarrow>
   \<not> isThinking (last (removeTrailingThinkingBlocks bs)) \<or>
   hasValidSignature (last (removeTrailingThinkingBlocks bs))"
proof (induction bs rule: rev_induct)
  case Nil
  then show ?case by (simp add: remove_Nil)
next
  case (snoc b bs)
  show ?case
  proof (cases "isThinking b \<and> \<not> hasValidSignature b")
    case True
    with snoc show ?thesis by (simp add: remove_snoc_invalid)
  next
    case False
    then show ?thesis by (auto simp add: remove_snoc_kept)
  qed
qed

lemma remove_dropped_invalid:
  "\<exists>dropped. bs = removeTrailingThinkingBlocks bs @ dropped \<and>
     (\<forall>b \<in> set dropped. isThinking b \<and> \<not> hasValidSignature b)"
proof (induction bs rule: rev_induct)
  case Nil
  show ?case by (simp add: remove_Nil)
next
  case (snoc b bs)
  show ?case
  proof (cases "isThinking b \<and> \<not> hasValidSignature b")
    case True
    from snoc obtain dropped where d: "bs = removeTrailingThinkingBlocks bs @ dropped"
      "\<forall>b \<in> set dropped. isThinking b \<and> \<not> hasValidSignature b" by blast
    have "bs @ [b] = removeTrailingThinkingBlocks (bs @ [b]) @ (dropped @ [b])"
      using True d(1) by (simp add: remove_snoc_invalid)
    moreover have "\<forall>x \<in> set (dropped @ [b]). isThinking x \<and> \<not> hasValidSignature x"
      using True d(2) by simp
    ultimately show ?thesis by blast
  next
    case False
    then have "bs @ [b] = removeTrailingThinkingBlocks (bs @ [b]) @ []"
      by (simp add: remove_snoc_kept)
    then show ?thesis by (metis empty_iff list.set(1))
  qed
qed

lemma remove_prefix: "prefix (removeTrailingThinkingBlocks bs) bs"
  using remove_dropped_invalid[of bs] by (auto simp: prefix_def)

section \<open>Thinking blocks: the claims\<close>

text \<open>
  Claim C8. A signature is judged valid exactly when the block is a thinking block with a
  signature of at least 50 characters. In a turn of the assistant, a last block that is a
  thinking block without a valid signature is removed (and the rule then applies to the
  blocks before it); a last block that is no thinking block, or has a valid signature,
  stays, and the turn with it. The filtered turn is a prefix of the turn, it holds every
  block of the turn that is no thinking block, in place, and it does not end with a
  thinking block that has no valid signature.
\<close>

theorem trailing_thinking_removed:
  "(hasValidSignature b \<longleftrightarrow> (\<exists>txt sig. b = Thinking txt (Some sig) \<and> 50 \<le> length sig)) \<and>
   (turnRole t = Assistant \<and> blocks t = bs @ [b] \<and> isThinking b \<and> \<not> hasValidSignature b \<longrightarrow>
      blocks (filterTurn t) = removeTrailingThinkingBlocks bs \<and> prefix (blocks (filterTurn t)) bs) \<and>
   (blocks t = bs @ [b] \<and> (\<not> isThinking b \<or> hasValidSignature b) \<longrightarrow> filterTurn t = t) \<and>
   prefix (blocks (filterTurn t)) (blocks t) \<and>
   filter (\<lambda>x. \<not> isThinking x) (blocks (filterTurn t)) = filter (\<lambda>x. \<not> isThinking x) (blocks t) \<and>
   (turnRole t = Assistant \<and> blocks (filterTurn t) \<noteq> [] \<longrightarrow>
      \<not> isThinking (last (blocks (filterTurn t))) \<or>
      hasValidSignature (last (blocks (filterTurn t))))"
proof -
  have a: "hasValidSignature b \<longleftrightarrow> (\<exists>txt sig. b = Thinking txt (Some sig) \<and> 50 \<le> length sig)"
    by (rule hasValidSignature_iff)
  have b: "turnRole t = Assistant \<and> blocks t = bs @ [b] \<and> isThinking b \<and> \<not> hasValidSignature b \<longrightarrow>
      blocks (filterTurn t) = removeTrailingThinkingBlocks bs \<and> prefix (blocks (filterTurn t)) bs"
    using remove_prefix[of bs] by (auto simp: filterTurn_def remove_snoc_invalid)
  have c: "blocks t = bs @ [b] \<and> (\<not> isThinking b \<or> hasValidSignature b) \<longrightarrow> filterTurn t = t"
  proof
    assume h: "blocks t = bs @ [b] \<and> (\<not> isThinking b \<or> hasValidSignature b)"
    then have "removeTrailingThinkingBlocks (blocks t) = blocks t"
      using remove_snoc_kept[of b bs] by auto
    then show "filterTurn t = t" by (simp add: filterTurn_def)
  qed
  have d: "prefix (blocks (filterTurn t)) (blocks t)"
    by (simp add: filterTurn_def remove_prefix)
  have e: "filter (\<lambda>x. \<not> isThinking x) (blocks (filterTurn t)) = filter (\<lambda>x. \<not> isThinking x) (blocks t)"
    by (simp add: filterTurn_def remove_keeps_others)
  have f: "turnRole t = Assistant \<and> blocks (filterTurn t) \<noteq> [] \<longrightarrow>
      \<not> isThinking (last (blocks (filterTurn t))) \<or>
      hasValidSignature (last (blocks (filterTurn t)))"
    using remove_last_ok[of "blocks t"] by (auto simp: filterTurn_def)
  from a b c d e f show ?thesis by (intro conjI)
qed

text \<open>
  Claim C8 at a concrete turn of the assistant: a text, a tool call, a thinking block with
  a signature of five characters. The thinking block is removed and the two other
  blocks stay.
\<close>

theorem trailing_thinking_removed_witness:
  "turnRole \<lparr>turnRole = Assistant,
             blocks = [TextBlock ''hello'', ToolCall ''read'' ''id-1''] @ [Thinking ''plan'' (Some ''short'')]\<rparr> =
     Assistant \<and>
   isThinking (Thinking ''plan'' (Some ''short'')) \<and>
   \<not> hasValidSignature (Thinking ''plan'' (Some ''short'')) \<and>
   blocks (filterTurn \<lparr>turnRole = Assistant,
             blocks = [TextBlock ''hello'', ToolCall ''read'' ''id-1''] @ [Thinking ''plan'' (Some ''short'')]\<rparr>) =
     [TextBlock ''hello'', ToolCall ''read'' ''id-1'']"
proof -
  let ?t = "\<lparr>turnRole = Assistant,
             blocks = [TextBlock ''hello'', ToolCall ''read'' ''id-1''] @ [Thinking ''plan'' (Some ''short'')]\<rparr>"
  have h1: "turnRole ?t = Assistant" by simp
  have h2: "blocks ?t = [TextBlock ''hello'', ToolCall ''read'' ''id-1''] @ [Thinking ''plan'' (Some ''short'')]"
    by simp
  have h3: "isThinking (Thinking ''plan'' (Some ''short''))" by (simp add: isThinking_def)
  have h4: "\<not> hasValidSignature (Thinking ''plan'' (Some ''short''))"
    by (simp add: hasValidSignature_def)
  from trailing_thinking_removed
    [of "Thinking ''plan'' (Some ''short'')" ?t "[TextBlock ''hello'', ToolCall ''read'' ''id-1'']"]
    h1 h2 h3 h4
  have "blocks (filterTurn ?t) =
          removeTrailingThinkingBlocks [TextBlock ''hello'', ToolCall ''read'' ''id-1'']"
    by blast
  moreover have "removeTrailingThinkingBlocks [TextBlock ''hello'', ToolCall ''read'' ''id-1''] =
          [TextBlock ''hello'', ToolCall ''read'' ''id-1'']"
    using remove_snoc_kept[of "ToolCall ''read'' ''id-1''" "[TextBlock ''hello'']"]
    by (simp add: isThinking_def)
  ultimately have "blocks (filterTurn ?t) = [TextBlock ''hello'', ToolCall ''read'' ''id-1'']"
    by simp
  with h1 h3 h4 show ?thesis by (intro conjI)
qed

end
